theory Spec2Isabelle
  imports Main
begin

section \<open>The diffsync server (src/server.js)\<close>

text \<open>
  The server is event driven: the transport delivers \<open>join\<close> and \<open>syncWithServer\<close>
  events, and the adapter completes \<open>getData\<close>, \<open>checkDiffs\<close> and \<open>storeData\<close> requests
  by invoking the callback it was handed. Every method of \<open>Server.prototype\<close> becomes a
  function from the server's fields to the updated fields and the list of actions the
  method performs on its collaborators, in program order. A request to the adapter is
  such an action; it carries the closure handed to the adapter in defunctionalised form,
  and the closure's body is a function of its own that runs when the adapter completes
  the request.

  Modelling decisions.
  \<^item> Documents and deltas are values of two type parameters \<open>'doc\<close> and \<open>'delta\<close>
    (any JavaScript value, \<open>undefined\<close> included). The libraries \<open>jsondiffpatch\<close>
    and \<open>lodash.isempty\<close> are not part of the repository: their operations are the
    fields of a parameter \<open>D\<close>. \<open>jdp_patch D doc delta\<close> is the value the object
    \<open>doc\<close> holds after \<open>jsondiffpatch.patch(doc, delta)\<close> has returned (the server
    discards the returned value and relies on the mutation); both operations are taken
    to return normally.
  \<^item> A RoomState object is created in one place only, the load callback of
    \<open>getData\<close>, which stores it under \<open>cache[room]\<close>. A closure holding a reference
    to the RoomState of a room therefore reads and writes the entry \<open>data s room\<close>;
    \<open>reset\<close>, which replaces the cache object, is outside the model, which describes
    a run of the server between two resets.
  \<^item> Version numbers are integers (the counters of a run stay far below \<open>2\<^sup>5\<^sup>3\<close>,
    where JavaScript numbers stop being exact); \<open>editMessage.serverVersion\<close> is
    optional on the wire, \<open>None\<close> standing for \<open>undefined\<close>.
  \<^item> The \<open>err\<close> argument of a callback is \<open>None\<close> when it is falsy and
    \<open>Some\<close> of a message when it is an error; the \<open>res\<close> argument of the
    \<open>checkDiffs\<close> callback is its truth value.
  \<^item> The adapter invokes the callback of a request at most once, and after the handler
    that issued the request has returned.
  \<^item> Room names and connection ids are keys of plain JavaScript objects; they are taken
    to differ from the property names every object inherits.
\<close>

subsection \<open>Data\<close>

type_synonym room = string
type_synonym userid = string
type_synonym connid = string

text \<open>The functions \<open>initializeClient\<close> and \<open>sendToClient\<close> that arrive with an event
  are opaque to the server: it only calls them. They are identified by a number.\<close>

type_synonym fnid = nat

record connection =
  conn_id :: connid
  conn_userid :: userid

record 'delta edit =
  edit_serverVersion :: int
  edit_localVersion :: int
  edit_diff :: 'delta

record 'delta editMessage =
  msg_room :: room
  msg_serverVersion :: "int option"
  msg_edits :: "'delta edit list"

record 'doc backup =
  backup_doc :: 'doc
  backup_serverVersion :: int

record 'doc shadow =
  shadow_doc :: 'doc
  shadow_serverVersion :: int
  shadow_localVersion :: int

record ('doc, 'delta) clientDoc =
  cd_backup :: "'doc backup"
  cd_shadow :: "'doc shadow"
  cd_edits :: "'delta edit list"

record ('doc, 'delta) roomState =
  registeredSockets :: "connid list"
  clientVersions :: "connid \<rightharpoonup> ('doc, 'delta) clientDoc"
  serverCopy :: 'doc

record ('doc, 'delta) server =
  data :: "room \<rightharpoonup> ('doc, 'delta) roomState"
  requests :: "room \<rightharpoonup> bool"
  saveRequests :: "room \<rightharpoonup> bool"
  saveQueue :: "room \<rightharpoonup> bool"

record 'delta reply =
  reply_localVersion :: int
  reply_serverVersion :: int
  reply_edits :: "'delta edit list"

text \<open>The operations of the libraries the server calls.\<close>

record ('doc, 'delta) libs =
  jdp_diff :: "'doc \<Rightarrow> 'doc \<Rightarrow> 'delta"
  jdp_patch :: "'doc \<Rightarrow> 'delta \<Rightarrow> 'doc"
  isEmpty :: "'delta \<Rightarrow> bool"

text \<open>Modelled from the spec: \<open>utils.deepCopy\<close> (src/utils.js is not among the sources).
  The spec describes it as a value-independent copy; on values that is the identity.\<close>

definition deepCopy :: "'a \<Rightarrow> 'a" where
  "deepCopy x = x"

text \<open>The entries of the COMMANDS table the server uses.\<close>

datatype command = CmdJoin | CmdSyncWithServer | CmdRemoteUpdateIncoming | CmdError

text \<open>The three closures the server passes to its own \<open>getData\<close>.\<close>

datatype 'delta getDataCb =
    JoinCb connection room fnid
  | ReceiveEditCb connection "'delta editMessage" fnid
  | SaveSnapshotCb room "'delta edit list" userid

text \<open>The closure \<open>checkQueueAndSaveAgain\<close> with the variables it captures.\<close>

datatype 'delta storeCb = CheckQueueAndSaveAgain room "'delta edit list" userid

datatype ('doc, 'delta) action =
    AdapterGetData room userid "'delta getDataCb"
  | AdapterCheckDiffs "'delta editMessage" "('doc, 'delta) roomState" connection fnid
  | AdapterStoreData room userid 'doc "'delta edit list" "'delta storeCb"
  | ConnectionJoin connection room
  | ConnectionEmit connection command string
  | TransportToEmit room command connid
  | InitializeClient fnid 'doc
  | SendToClient fnid "'delta reply"
  | ConsoleLog int int int int
  | TypeError

text \<open>JavaScript truthiness of a flag read from an object: a missing key reads
  \<open>undefined\<close>.\<close>

definition truthy :: "bool option \<Rightarrow> bool" where
  "truthy v = (v = Some True)"

subsection \<open>getData and saveSnapshot\<close>

text \<open>\<open>getData\<close> runs its callback at once on a cache hit; \<open>saveSnapshot\<close> calls
  \<open>getData\<close>, whose callback may call \<open>checkQueueAndSaveAgain\<close>, which may call
  \<open>saveSnapshot\<close> again: the four are mutually recursive, as in the source.\<close>

function getData :: "('doc, 'delta) server \<Rightarrow> room \<Rightarrow> userid \<Rightarrow> 'delta getDataCb
      \<Rightarrow> ('doc, 'delta) server \<times> ('doc, 'delta) action list"
  and getDataCallback :: "('doc, 'delta) server \<Rightarrow> 'delta getDataCb \<Rightarrow> string option
      \<Rightarrow> ('doc, 'delta) roomState option \<Rightarrow> ('doc, 'delta) server \<times> ('doc, 'delta) action list"
  and checkQueueAndSaveAgain :: "('doc, 'delta) server \<Rightarrow> room \<Rightarrow> 'delta edit list \<Rightarrow> userid
      \<Rightarrow> ('doc, 'delta) server \<times> ('doc, 'delta) action list"
  and saveSnapshot :: "('doc, 'delta) server \<Rightarrow> room \<Rightarrow> 'delta edit list \<Rightarrow> userid
      \<Rightarrow> ('doc, 'delta) server \<times> ('doc, 'delta) action list"
where
  "getData s room userid callback =
     (case data s room of
        Some cachedVersion \<Rightarrow> getDataCallback s callback None (Some cachedVersion)
      | None \<Rightarrow>
          if \<not> truthy (requests s room)
          then (s\<lparr>requests := (requests s)(room \<mapsto> True)\<rparr>,
                [AdapterGetData room userid callback])
          else (s\<lparr>requests := (requests s)(room \<mapsto> True)\<rparr>, []))"
| "getDataCallback s (JoinCb connection room initializeClient) err dat =
     (case dat of
        None \<Rightarrow> (s, [ConnectionJoin connection room, TypeError])
      | Some d \<Rightarrow>
          (s\<lparr>data := (data s)(room \<mapsto>
               d\<lparr>clientVersions := (clientVersions d)(conn_id connection \<mapsto>
                 \<lparr>cd_backup = \<lparr>backup_doc = deepCopy (serverCopy d), backup_serverVersion = 0\<rparr>,
                  cd_shadow = \<lparr>shadow_doc = deepCopy (serverCopy d), shadow_serverVersion = 0,
                            shadow_localVersion = 0\<rparr>,
                  cd_edits = []\<rparr>)\<rparr>)\<rparr>,
           [ConnectionJoin connection room, InitializeClient initializeClient (serverCopy d)]))"
| "getDataCallback s (ReceiveEditCb connection editMessage sendToClient) err doc =
     (case doc of
        None \<Rightarrow> (s, [])
      | Some d \<Rightarrow> (s, [AdapterCheckDiffs editMessage d connection sendToClient]))"
| "getDataCallback s (SaveSnapshotCb room edits userid) err dat =
     (case (err, dat) of
        (None, Some d) \<Rightarrow>
          (s, [AdapterStoreData room userid (serverCopy d) edits
                 (CheckQueueAndSaveAgain room edits userid)])
      | _ \<Rightarrow> checkQueueAndSaveAgain s room edits userid)"
| "checkQueueAndSaveAgain s room edits userid =
     (if saveQueue s room = Some True
      then saveSnapshot
             (s\<lparr>saveRequests := (saveRequests s)(room \<mapsto> False),
                saveQueue := (saveQueue s)(room \<mapsto> False)\<rparr>) room edits userid
      else (s\<lparr>saveRequests := (saveRequests s)(room \<mapsto> False)\<rparr>, []))"
| "saveSnapshot s room edits userid =
     (if \<not> truthy (saveRequests s room)
      then getData (s\<lparr>saveRequests := (saveRequests s)(room \<mapsto> True)\<rparr>) room userid
             (SaveSnapshotCb room edits userid)
      else (s\<lparr>saveQueue := (saveQueue s)(room \<mapsto> True)\<rparr>, []))"
  by pat_completeness auto

termination
  by (relation "measure (\<lambda>x. case x of
         Inl (Inl (s, room, userid, cb)) \<Rightarrow>
           (case cb of SaveSnapshotCb r e u \<Rightarrow> (if saveQueue s r = Some True then 4 else 0) + 3
            | _ \<Rightarrow> 1)
       | Inl (Inr (s, cb, err, dat)) \<Rightarrow>
           (case cb of SaveSnapshotCb r e u \<Rightarrow> (if saveQueue s r = Some True then 4 else 0) + 2
            | _ \<Rightarrow> 0)
       | Inr (Inl (s, room, e, u)) \<Rightarrow> (if saveQueue s room = Some True then 4 else 0) + 1
       | Inr (Inr (s, room, e, u)) \<Rightarrow> (if saveQueue s room = Some True then 4 else 0) + 4)")
    (auto split: getDataCb.splits)


declare getData.simps [simp del] checkQueueAndSaveAgain.simps [simp del]
  saveSnapshot.simps [simp del]

text \<open>The callback \<open>getData\<close> hands to \<open>adapter.getData\<close>: it publishes a RoomState
  built from whatever the adapter delivered, clears the flag and notifies the one caller
  whose call started the load. Its \<open>error\<close> parameter is never read.\<close>

definition adapterGetDataCallback :: "('doc, 'delta) server \<Rightarrow> room \<Rightarrow> 'delta getDataCb
    \<Rightarrow> string option \<Rightarrow> 'doc \<Rightarrow> ('doc, 'delta) server \<times> ('doc, 'delta) action list" where
  "adapterGetDataCallback s room callback err dat =
     (let s1 = s\<lparr>data := (data s)(room \<mapsto>
                  \<lparr>registeredSockets = [], clientVersions = Map.empty, serverCopy = dat\<rparr>)\<rparr>;
          s2 = s1\<lparr>requests := (requests s1)(room \<mapsto> False)\<rparr>
      in getDataCallback s2 callback None (data s2 room))"

subsection \<open>joinConnection\<close>

definition joinConnection :: "('doc, 'delta) server \<Rightarrow> connection \<Rightarrow> room \<Rightarrow> fnid
    \<Rightarrow> ('doc, 'delta) server \<times> ('doc, 'delta) action list" where
  "joinConnection s connection room initializeClient =
     getData s room (conn_userid connection) (JoinCb connection room initializeClient)"

subsection \<open>receiveEdit and sendServerChanges\<close>

text \<open>The body of the \<open>forEach\<close> over \<open>editMessage.edits\<close>. It works on the client's
  entry and on the server copy of the room, and may write a line to the console.\<close>

definition applyEdit :: "('doc, 'delta) libs \<Rightarrow> 'delta edit
    \<Rightarrow> ('doc, 'delta) clientDoc \<times> 'doc \<times> ('doc, 'delta) action list
    \<Rightarrow> ('doc, 'delta) clientDoc \<times> 'doc \<times> ('doc, 'delta) action list" where
  "applyEdit D e st =
     (case st of (clientDoc, srvCopy, out) \<Rightarrow>
        if edit_serverVersion e = shadow_serverVersion (cd_shadow clientDoc) \<and>
           edit_localVersion e = shadow_localVersion (cd_shadow clientDoc)
        then
          (let c1 = clientDoc\<lparr>cd_backup := (cd_backup clientDoc)
                      \<lparr>backup_doc := deepCopy (shadow_doc (cd_shadow clientDoc))\<rparr>\<rparr>;
               c2 = c1\<lparr>cd_shadow := (cd_shadow c1)
                      \<lparr>shadow_doc := jdp_patch D (shadow_doc (cd_shadow c1))
                                       (deepCopy (edit_diff e))\<rparr>\<rparr>;
               srvCopy' = jdp_patch D srvCopy (deepCopy (edit_diff e));
               c3 = (if \<not> isEmpty D (edit_diff e)
                     then c2\<lparr>cd_shadow := (cd_shadow c2)
                            \<lparr>shadow_localVersion := shadow_localVersion (cd_shadow c2) + 1\<rparr>\<rparr>
                     else c2)
           in (c3, srvCopy', out))
        else
          (clientDoc, srvCopy,
           out @ [ConsoleLog (edit_serverVersion e) (shadow_serverVersion (cd_shadow clientDoc))
                    (edit_localVersion e) (shadow_localVersion (cd_shadow clientDoc))]))"

primrec forEachEdit :: "('doc, 'delta) libs \<Rightarrow> 'delta edit list
    \<Rightarrow> ('doc, 'delta) clientDoc \<times> 'doc \<times> ('doc, 'delta) action list
    \<Rightarrow> ('doc, 'delta) clientDoc \<times> 'doc \<times> ('doc, 'delta) action list" where
  "forEachEdit D [] st = st"
| "forEachEdit D (e # es) st = forEachEdit D es (applyEdit D e st)"

definition sendServerChanges :: "('doc, 'delta) libs \<Rightarrow> ('doc, 'delta) roomState
    \<Rightarrow> ('doc, 'delta) clientDoc \<Rightarrow> fnid
    \<Rightarrow> ('doc, 'delta) clientDoc \<times> ('doc, 'delta) action list" where
  "sendServerChanges D doc clientDoc send =
     (let diff = jdp_diff D (shadow_doc (cd_shadow clientDoc)) (serverCopy doc);
          basedOnServerVersion = shadow_serverVersion (cd_shadow clientDoc);
          clientDoc' =
            (if \<not> isEmpty D diff
             then
               (let c1 = clientDoc\<lparr>cd_edits := cd_edits clientDoc @
                           [\<lparr>edit_serverVersion = basedOnServerVersion,
                             edit_localVersion = shadow_localVersion (cd_shadow clientDoc),
                             edit_diff = diff\<rparr>]\<rparr>;
                    c2 = c1\<lparr>cd_shadow := (cd_shadow c1)
                           \<lparr>shadow_serverVersion := shadow_serverVersion (cd_shadow c1) + 1\<rparr>\<rparr>
                in c2\<lparr>cd_shadow := (cd_shadow c2)
                       \<lparr>shadow_doc := jdp_patch D (shadow_doc (cd_shadow c2)) (deepCopy diff)\<rparr>\<rparr>)
             else clientDoc)
      in (clientDoc',
          [SendToClient send
             \<lparr>reply_localVersion = shadow_localVersion (cd_shadow clientDoc'),
              reply_serverVersion = basedOnServerVersion,
              reply_edits = cd_edits clientDoc'\<rparr>]))"

text \<open>The callback \<open>receiveEdit\<close> hands to \<open>adapter.checkDiffs\<close>. The closure holds the
  RoomState of \<open>editMessage.room\<close>; the first case below is never taken, since the closure
  exists only once that room is cached.\<close>

definition checkDiffsCallback :: "('doc, 'delta) libs \<Rightarrow> ('doc, 'delta) server \<Rightarrow> connection
    \<Rightarrow> 'delta editMessage \<Rightarrow> fnid \<Rightarrow> string option \<Rightarrow> bool
    \<Rightarrow> ('doc, 'delta) server \<times> ('doc, 'delta) action list" where
  "checkDiffsCallback D s connection editMessage sendToClient err res =
     (case data s (msg_room editMessage) of
        None \<Rightarrow> (s, [])
      | Some doc \<Rightarrow>
          if res then
            (case (err, clientVersions doc (conn_id connection)) of
               (None, Some clientDoc) \<Rightarrow>
                 (let c1 = (if msg_serverVersion editMessage =
                               Some (shadow_serverVersion (cd_shadow clientDoc))
                            then clientDoc\<lparr>cd_edits := []\<rparr> else clientDoc)
                  in case forEachEdit D (msg_edits editMessage) (c1, serverCopy doc, []) of
                    (c2, srvCopy, logged) \<Rightarrow>
                      (let doc2 = doc\<lparr>serverCopy := srvCopy,
                                     clientVersions := (clientVersions doc)(conn_id connection \<mapsto> c2)\<rparr>;
                           s2 = s\<lparr>data := (data s)(msg_room editMessage \<mapsto> doc2)\<rparr>
                       in case saveSnapshot s2 (msg_room editMessage) (msg_edits editMessage)
                                 (conn_userid connection) of
                         (s3, saved) \<Rightarrow>
                           (let notified =
                                  (if length (msg_edits editMessage) > 0
                                   then [TransportToEmit (msg_room editMessage)
                                           CmdRemoteUpdateIncoming (conn_id connection)]
                                   else [])
                            in case sendServerChanges D doc2 c2 sendToClient of
                              (c3, sent) \<Rightarrow>
                                (s3\<lparr>data := (data s3)(msg_room editMessage \<mapsto>
                                      doc2\<lparr>clientVersions :=
                                        (clientVersions doc2)(conn_id connection \<mapsto> c3)\<rparr>)\<rparr>,
                                 logged @ saved @ notified @ sent))))
             | _ \<Rightarrow> (s, [ConnectionEmit connection CmdError ''Need to re-connect!'']))
          else (s, []))"

definition receiveEdit :: "('doc, 'delta) server \<Rightarrow> connection \<Rightarrow> 'delta editMessage \<Rightarrow> fnid
    \<Rightarrow> ('doc, 'delta) server \<times> ('doc, 'delta) action list" where
  "receiveEdit s connection editMessage sendToClient =
     getData s (msg_room editMessage) (conn_userid connection)
       (ReceiveEditCb connection editMessage sendToClient)"

text \<open>The callback \<open>saveSnapshot\<close> hands to \<open>adapter.storeData\<close>.\<close>

fun storeDataCallback :: "('doc, 'delta) server \<Rightarrow> 'delta storeCb
    \<Rightarrow> ('doc, 'delta) server \<times> ('doc, 'delta) action list" where
  "storeDataCallback s (CheckQueueAndSaveAgain room edits userid) =
     checkQueueAndSaveAgain s room edits userid"


subsection \<open>The server and its environment\<close>

text \<open>A run of the server: the fields of the server, the requests handed to the adapter
  that it has not completed yet (oldest first), and every action performed so far. The
  adapter completes an outstanding request once, at any later time, by invoking its
  callback; an event of completion names the request by its position among the
  outstanding ones.\<close>

record ('doc, 'delta) system =
  srv :: "('doc, 'delta) server"
  pending :: "('doc, 'delta) action list"
  trace :: "('doc, 'delta) action list"

datatype ('doc, 'delta) event =
    Join connection room fnid
  | SyncWithServer connection "'delta editMessage" fnid
  | SaveSnapshot room "'delta edit list" userid
  | GetDataDone nat "string option" 'doc
  | CheckDiffsDone nat "string option" bool
  | StoreDataDone nat

fun isAdapterCall :: "('doc, 'delta) action \<Rightarrow> bool" where
  "isAdapterCall (AdapterGetData room userid cb) = True"
| "isAdapterCall (AdapterCheckDiffs m d c f) = True"
| "isAdapterCall (AdapterStoreData room userid d e k) = True"
| "isAdapterCall a = False"

text \<open>The constructor: four empty objects.\<close>

definition newServer :: "('doc, 'delta) server" where
  "newServer = \<lparr>data = Map.empty, requests = Map.empty, saveRequests = Map.empty,
                saveQueue = Map.empty\<rparr>"

definition initial :: "('doc, 'delta) system" where
  "initial = \<lparr>srv = newServer, pending = [], trace = []\<rparr>"

definition perform :: "('doc, 'delta) system \<Rightarrow> ('doc, 'delta) server \<times> ('doc, 'delta) action list
    \<Rightarrow> ('doc, 'delta) system" where
  "perform sys r =
     \<lparr>srv = fst r, pending = pending sys @ filter isAdapterCall (snd r),
      trace = trace sys @ snd r\<rparr>"

definition complete :: "nat \<Rightarrow> ('doc, 'delta) system \<Rightarrow> ('doc, 'delta) system" where
  "complete i sys = sys\<lparr>pending := take i (pending sys) @ drop (Suc i) (pending sys)\<rparr>"

definition outstanding :: "('doc, 'delta) system \<Rightarrow> nat \<Rightarrow> ('doc, 'delta) action option" where
  "outstanding sys i = (if i < length (pending sys) then Some (pending sys ! i) else None)"

fun step :: "('doc, 'delta) libs \<Rightarrow> ('doc, 'delta) system \<Rightarrow> ('doc, 'delta) event
    \<Rightarrow> ('doc, 'delta) system" where
  "step D sys (Join connection room initializeClient) =
     perform sys (joinConnection (srv sys) connection room initializeClient)"
| "step D sys (SyncWithServer connection editMessage sendToClient) =
     perform sys (receiveEdit (srv sys) connection editMessage sendToClient)"
| "step D sys (SaveSnapshot room es userid) =
     perform sys (saveSnapshot (srv sys) room es userid)"
| "step D sys (GetDataDone i err dat) =
     (case outstanding sys i of
        Some (AdapterGetData room userid cb) \<Rightarrow>
          perform (complete i sys) (adapterGetDataCallback (srv sys) room cb err dat)
      | _ \<Rightarrow> sys)"
| "step D sys (CheckDiffsDone i err res) =
     (case outstanding sys i of
        Some (AdapterCheckDiffs editMessage doc connection sendToClient) \<Rightarrow>
          perform (complete i sys)
            (checkDiffsCallback D (srv sys) connection editMessage sendToClient err res)
      | _ \<Rightarrow> sys)"
| "step D sys (StoreDataDone i) =
     (case outstanding sys i of
        Some (AdapterStoreData room userid doc es k) \<Rightarrow>
          perform (complete i sys) (storeDataCallback (srv sys) k)
      | _ \<Rightarrow> sys)"

definition run :: "('doc, 'delta) libs \<Rightarrow> ('doc, 'delta) event list \<Rightarrow> ('doc, 'delta) system
    \<Rightarrow> ('doc, 'delta) system" where
  "run D evs sys = foldl (step D) sys evs"

text \<open>Counting the requests for one room in a list of actions.\<close>

fun isGetDataFor :: "room \<Rightarrow> ('doc, 'delta) action \<Rightarrow> bool" where
  "isGetDataFor r (AdapterGetData room userid cb) = (room = r)"
| "isGetDataFor r a = False"

fun isStoreDataFor :: "room \<Rightarrow> ('doc, 'delta) action \<Rightarrow> bool" where
  "isStoreDataFor r (AdapterStoreData room userid d es k) = (room = r)"
| "isStoreDataFor r a = False"

definition loads :: "room \<Rightarrow> ('doc, 'delta) action list \<Rightarrow> nat" where
  "loads r as = length (filter (isGetDataFor r) as)"

definition stores :: "room \<Rightarrow> ('doc, 'delta) action list \<Rightarrow> nat" where
  "stores r as = length (filter (isStoreDataFor r) as)"

text \<open>A toy instance of the libraries for concrete runs: documents and deltas are
  integers, the delta between two documents is their difference, and the empty delta
  is 0.\<close>

definition intLibs :: "(int, int) libs" where
  "intLibs = \<lparr>jdp_diff = (\<lambda>a b. b - a), jdp_patch = (\<lambda>d x. d + x), isEmpty = (\<lambda>x. x = 0)\<rparr>"


text \<open>A small server for concrete runs: room \<open>r\<close> is cached with document 5, and the
  connection \<open>a\<close> has joined it and still has one edit queued.\<close>

definition alice :: connection where
  "alice = \<lparr>conn_id = ''a'', conn_userid = ''alice''\<rparr>"

definition bob :: connection where
  "bob = \<lparr>conn_id = ''b'', conn_userid = ''bob''\<rparr>"

definition aliceDoc :: "(int, int) clientDoc" where
  "aliceDoc =
     \<lparr>cd_backup = \<lparr>backup_doc = 5, backup_serverVersion = 0\<rparr>,
      cd_shadow = \<lparr>shadow_doc = 5, shadow_serverVersion = 0, shadow_localVersion = 0\<rparr>,
      cd_edits = [\<lparr>edit_serverVersion = 0, edit_localVersion = 0, edit_diff = 1\<rparr>]\<rparr>"

definition roomR :: "(int, int) roomState" where
  "roomR = \<lparr>registeredSockets = [], clientVersions = [''a'' \<mapsto> aliceDoc], serverCopy = 5\<rparr>"

definition serverR :: "(int, int) server" where
  "serverR = \<lparr>data = [''r'' \<mapsto> roomR], requests = [''r'' \<mapsto> False],
               saveRequests = Map.empty, saveQueue = Map.empty\<rparr>"

text \<open>A message of two edits: the first is stale, the second matches the shadow.\<close>

definition msgR :: "int editMessage" where
  "msgR = \<lparr>msg_room = ''r'', msg_serverVersion = Some 0,
           msg_edits = [\<lparr>edit_serverVersion = 7, edit_localVersion = 0, edit_diff = 2\<rparr>,
                        \<lparr>edit_serverVersion = 0, edit_localVersion = 0, edit_diff = 3\<rparr>]\<rparr>"



subsection \<open>An invariant of every run\<close>

text \<open>The room a closure passed to \<open>getData\<close> was built for; every request the server
  hands to the adapter carries a closure built for the room of the request.\<close>

fun cbRoom :: "'delta getDataCb \<Rightarrow> room" where
  "cbRoom (JoinCb connection room f) = room"
| "cbRoom (ReceiveEditCb connection editMessage f) = msg_room editMessage"
| "cbRoom (SaveSnapshotCb room es userid) = room"

fun wellFormed :: "('doc, 'delta) action \<Rightarrow> bool" where
  "wellFormed (AdapterGetData room userid cb) = (cbRoom cb = room)"
| "wellFormed (AdapterStoreData room userid d es k) = (k = CheckQueueAndSaveAgain room es userid)"
| "wellFormed a = True"

fun isSaveLoadFor :: "room \<Rightarrow> ('doc, 'delta) action \<Rightarrow> bool" where
  "isSaveLoadFor r (AdapterGetData room userid (SaveSnapshotCb room' es u)) = (room = r)"
| "isSaveLoadFor r a = False"

definition saveLoads :: "room \<Rightarrow> ('doc, 'delta) action list \<Rightarrow> nat" where
  "saveLoads r as = length (filter (isSaveLoadFor r) as)"

text \<open>What holds for each room in every run: while the room is not cached, the load
  flag is set exactly when the one load the server ever asked for is outstanding, and
  no save is outstanding; once it is cached no load is outstanding; at most one save is
  outstanding; and the save flag is set whenever a save, or a load on behalf of
  \<open>saveSnapshot\<close>, is outstanding.\<close>

definition roomInv :: "('doc, 'delta) server \<Rightarrow> ('doc, 'delta) action list
    \<Rightarrow> ('doc, 'delta) action list \<Rightarrow> room \<Rightarrow> bool" where
  "roomInv s P T r =
     ((case data s r of
         None \<Rightarrow> loads r P = loads r T \<and> loads r T \<le> 1 \<and>
                 (truthy (requests s r) = (loads r P = 1)) \<and> stores r P = 0
       | Some rs \<Rightarrow> loads r P = 0 \<and> loads r T \<le> 1 \<and> stores r P \<le> 1)
      \<and> (0 < stores r P \<or> 0 < saveLoads r P \<longrightarrow> truthy (saveRequests s r)))"

definition invariant :: "('doc, 'delta) system \<Rightarrow> bool" where
  "invariant sys =
     (list_all wellFormed (pending sys) \<and>
      (\<forall>r. roomInv (srv sys) (pending sys) (trace sys) r))"

section \<open>Properties\<close>

subsection \<open>The handlers, case by case\<close>

lemma getData_cached:
  "data s r = Some rs \<Longrightarrow> getData s r u cb = getDataCallback s cb None (Some rs)"
  by (simp add: getData.simps)

lemma getData_load:
  "data s r = None \<Longrightarrow> \<not> truthy (requests s r) \<Longrightarrow>
   getData s r u cb = (s\<lparr>requests := (requests s)(r \<mapsto> True)\<rparr>, [AdapterGetData r u cb])"
  by (simp add: getData.simps)

lemma getData_dropped:
  "data s r = None \<Longrightarrow> truthy (requests s r) \<Longrightarrow>
   getData s r u cb = (s\<lparr>requests := (requests s)(r \<mapsto> True)\<rparr>, [])"
  by (simp add: getData.simps)

lemma saveSnapshot_busy:
  "truthy (saveRequests s r) \<Longrightarrow>
   saveSnapshot s r es u = (s\<lparr>saveQueue := (saveQueue s)(r \<mapsto> True)\<rparr>, [])"
  by (simp add: saveSnapshot.simps)

lemma saveSnapshot_idle:
  "\<not> truthy (saveRequests s r) \<Longrightarrow>
   saveSnapshot s r es u =
     getData (s\<lparr>saveRequests := (saveRequests s)(r \<mapsto> True)\<rparr>) r u (SaveSnapshotCb r es u)"
  by (simp add: saveSnapshot.simps)

lemma saveSnapshot_idle_cached:
  "\<not> truthy (saveRequests s r) \<Longrightarrow> data s r = Some rs \<Longrightarrow>
   saveSnapshot s r es u =
     (s\<lparr>saveRequests := (saveRequests s)(r \<mapsto> True)\<rparr>,
      [AdapterStoreData r u (serverCopy rs) es (CheckQueueAndSaveAgain r es u)])"
  by (simp add: saveSnapshot_idle getData_cached)

lemma checkQueueAndSaveAgain_queued:
  "saveQueue s r = Some True \<Longrightarrow> data s r = Some rs \<Longrightarrow>
   checkQueueAndSaveAgain s r es u =
     (s\<lparr>saveRequests := (saveRequests s)(r \<mapsto> True),
        saveQueue := (saveQueue s)(r \<mapsto> False)\<rparr>,
      [AdapterStoreData r u (serverCopy rs) es (CheckQueueAndSaveAgain r es u)])"
  by (simp add: checkQueueAndSaveAgain.simps saveSnapshot_idle_cached truthy_def)

lemma checkQueueAndSaveAgain_idle:
  "saveQueue s r \<noteq> Some True \<Longrightarrow>
   checkQueueAndSaveAgain s r es u =
     (s\<lparr>saveRequests := (saveRequests s)(r \<mapsto> False)\<rparr>, [])"
  by (simp add: checkQueueAndSaveAgain.simps)

lemma cd_edits_applyEdit: "cd_edits (fst (applyEdit D e st)) = cd_edits (fst st)"
  by (cases st) (simp add: applyEdit_def Let_def)

lemma cd_edits_forEachEdit: "cd_edits (fst (forEachEdit D es st)) = cd_edits (fst st)"
  by (induction es arbitrary: st) (simp_all add: cd_edits_applyEdit)

lemma serverVersion_applyEdit:
  "shadow_serverVersion (cd_shadow (fst (applyEdit D e st))) =
   shadow_serverVersion (cd_shadow (fst st))"
  by (cases st) (simp add: applyEdit_def Let_def)

lemma serverVersion_forEachEdit:
  "shadow_serverVersion (cd_shadow (fst (forEachEdit D es st))) =
   shadow_serverVersion (cd_shadow (fst st))"
  by (induction es arbitrary: st) (simp_all add: serverVersion_applyEdit)

lemma forEachEdit_foldl: "forEachEdit D es st = foldl (\<lambda>st e. applyEdit D e st) st es"
  by (induction es arbitrary: st) simp_all

lemma sendServerChanges_keeps:
  "cd_backup (fst (sendServerChanges D doc clientDoc send)) = cd_backup clientDoc"
  "shadow_localVersion (cd_shadow (fst (sendServerChanges D doc clientDoc send))) =
   shadow_localVersion (cd_shadow clientDoc)"
  by (simp_all add: sendServerChanges_def Let_def)

lemma sendServerChanges_queue:
  "cd_edits (fst (sendServerChanges D doc clientDoc send)) =
   cd_edits clientDoc @
     (if isEmpty D (jdp_diff D (shadow_doc (cd_shadow clientDoc)) (serverCopy doc)) then []
      else [\<lparr>edit_serverVersion = shadow_serverVersion (cd_shadow clientDoc),
             edit_localVersion = shadow_localVersion (cd_shadow clientDoc),
             edit_diff = jdp_diff D (shadow_doc (cd_shadow clientDoc)) (serverCopy doc)\<rparr>])"
  by (simp add: sendServerChanges_def Let_def)

lemma sendServerChanges_sent:
  "snd (sendServerChanges D doc clientDoc send) =
     [SendToClient send
        \<lparr>reply_localVersion = shadow_localVersion (cd_shadow clientDoc),
         reply_serverVersion = shadow_serverVersion (cd_shadow clientDoc),
         reply_edits = cd_edits (fst (sendServerChanges D doc clientDoc send))\<rparr>]"
  by (simp add: sendServerChanges_def Let_def)

text \<open>What the allowed path of the \<open>checkDiffs\<close> callback leaves in the cache and performs,
  in terms of the loop, of \<open>saveSnapshot\<close> and of \<open>sendServerChanges\<close>.\<close>

lemma checkDiffsCallback_allowed:
  assumes "data s (msg_room m) = Some doc" and "clientVersions doc (conn_id c) = Some cd"
    and "forEachEdit D (msg_edits m)
           (if msg_serverVersion m = Some (shadow_serverVersion (cd_shadow cd))
            then cd\<lparr>cd_edits := []\<rparr> else cd, serverCopy doc, []) = (c2, sc, lg)"
    and "doc2 = doc\<lparr>serverCopy := sc, clientVersions := (clientVersions doc)(conn_id c \<mapsto> c2)\<rparr>"
  shows "data (fst (checkDiffsCallback D s c m f None True)) (msg_room m) =
           Some (doc2\<lparr>clientVersions := (clientVersions doc2)
                   (conn_id c \<mapsto> fst (sendServerChanges D doc2 c2 f))\<rparr>)"
    and "snd (checkDiffsCallback D s c m f None True) =
           lg @ snd (saveSnapshot (s\<lparr>data := (data s)(msg_room m \<mapsto> doc2)\<rparr>) (msg_room m)
                       (msg_edits m) (conn_userid c))
              @ (if length (msg_edits m) > 0
                 then [TransportToEmit (msg_room m) CmdRemoteUpdateIncoming (conn_id c)] else [])
              @ snd (sendServerChanges D doc2 c2 f)"
  using assms
  by (simp_all add: checkDiffsCallback_def Let_def split: prod.splits)

subsection \<open>Claims about receiveEdit and sendServerChanges\<close>

text \<open>C2: sendServerChanges computes the delta from the shadow to the server copy. When
  the delta is not empty it appends one edit carrying the shadow's versions as they were
  and the delta, increments the shadow's server version and patches the shadow; when it
  is empty it changes nothing. In both cases it calls the reply function exactly once,
  with the shadow's local version, the server version as it was before the call and
  the client's queue.\<close>

theorem sendServerChanges_reply:
  "sendServerChanges D doc clientDoc send =
     (if isEmpty D (jdp_diff D (shadow_doc (cd_shadow clientDoc)) (serverCopy doc))
      then (clientDoc,
            [SendToClient send
               \<lparr>reply_localVersion = shadow_localVersion (cd_shadow clientDoc),
                reply_serverVersion = shadow_serverVersion (cd_shadow clientDoc),
                reply_edits = cd_edits clientDoc\<rparr>])
      else (\<lparr>cd_backup = cd_backup clientDoc,
             cd_shadow =
               \<lparr>shadow_doc = jdp_patch D (shadow_doc (cd_shadow clientDoc))
                               (jdp_diff D (shadow_doc (cd_shadow clientDoc)) (serverCopy doc)),
                shadow_serverVersion = shadow_serverVersion (cd_shadow clientDoc) + 1,
                shadow_localVersion = shadow_localVersion (cd_shadow clientDoc)\<rparr>,
             cd_edits = cd_edits clientDoc @
               [\<lparr>edit_serverVersion = shadow_serverVersion (cd_shadow clientDoc),
                 edit_localVersion = shadow_localVersion (cd_shadow clientDoc),
                 edit_diff = jdp_diff D (shadow_doc (cd_shadow clientDoc)) (serverCopy doc)\<rparr>]\<rparr>,
            [SendToClient send
               \<lparr>reply_localVersion = shadow_localVersion (cd_shadow clientDoc),
                reply_serverVersion = shadow_serverVersion (cd_shadow clientDoc),
                reply_edits = cd_edits clientDoc @
                  [\<lparr>edit_serverVersion = shadow_serverVersion (cd_shadow clientDoc),
                    edit_localVersion = shadow_localVersion (cd_shadow clientDoc),
                    edit_diff = jdp_diff D (shadow_doc (cd_shadow clientDoc)) (serverCopy doc)\<rparr>]\<rparr>]))"
  by (simp add: sendServerChanges_def Let_def deepCopy_def)

text \<open>C7: when checkDiffs reports the message as not allowed, the callback does nothing:
  the server's fields (every room, shadow, backup, version and queue, and the save
  flags) are as before and no action is performed, so there is no reply, no broadcast,
  no error event and no save. In a run, the completion only removes the request from
  the outstanding ones.\<close>

theorem checkDiffs_disallowed:
  "checkDiffsCallback D s connection editMessage sendToClient err False = (s, [])
   \<and> srv (step D sys (CheckDiffsDone i err False)) = srv sys
   \<and> trace (step D sys (CheckDiffsDone i err False)) = trace sys
   \<and> pending (step D sys (CheckDiffsDone i err False)) =
       (case outstanding sys i of
          Some (AdapterCheckDiffs m d c f) \<Rightarrow> pending (complete i sys)
        | _ \<Rightarrow> pending sys)"
  by (auto simp add: checkDiffsCallback_def perform_def complete_def
           split: option.splits action.splits)

text \<open>C9: when the message is allowed but the room has no entry for the connection's
  id, the callback emits the error event with the text "Need to re-connect!" on that
  connection and does nothing else: the server's fields are unchanged, and no save,
  broadcast or reply is performed.\<close>

theorem unknown_client_must_reconnect:
  assumes "data s (msg_room editMessage) = Some doc"
    and "clientVersions doc (conn_id connection) = None"
  shows "checkDiffsCallback D s connection editMessage sendToClient err True =
           (s, [ConnectionEmit connection CmdError ''Need to re-connect!''])"
  using assms by (simp add: checkDiffsCallback_def split: option.splits)

theorem unknown_client_must_reconnect_witness:
  "checkDiffsCallback intLibs serverR bob msgR 9 None True =
     (serverR, [ConnectionEmit bob CmdError ''Need to re-connect!''])"
proof -
  have cached: "data serverR (msg_room msgR) = Some roomR"
    by (simp add: serverR_def msgR_def)
  have unknown: "clientVersions roomR (conn_id bob) = None"
    by (simp add: roomR_def bob_def)
  show ?thesis
    by (rule unknown_client_must_reconnect [OF cached unknown])
qed

lemma backup_localVersion_after_allowed:
  assumes "data s (msg_room m) = Some doc" and "clientVersions doc (conn_id c) = Some cd"
    and "forEachEdit D (msg_edits m)
           (if msg_serverVersion m = Some (shadow_serverVersion (cd_shadow cd))
            then cd\<lparr>cd_edits := []\<rparr> else cd, serverCopy doc, []) = (c2, sc, lg)"
  shows "\<exists>doc' cd'.
           data (fst (checkDiffsCallback D s c m f None True)) (msg_room m) = Some doc' \<and>
           clientVersions doc' (conn_id c) = Some cd' \<and>
           serverCopy doc' = sc \<and> cd_backup cd' = cd_backup c2 \<and>
           shadow_localVersion (cd_shadow cd') = shadow_localVersion (cd_shadow c2) \<and>
           cd_edits cd' = cd_edits (fst (sendServerChanges D
              (doc\<lparr>serverCopy := sc, clientVersions := (clientVersions doc)(conn_id c \<mapsto> c2)\<rparr>) c2 f))"
  by (simp add: checkDiffsCallback_allowed(1) [OF assms refl] sendServerChanges_keeps)

text \<open>C1: the loop of receiveEdit applies the edits of a message one after the other, each
  to the state the previous one left. An edit whose two versions equal the shadow's copies
  the shadow's document into the backup, patches the shadow's document and the server
  copy with the edit's delta, and increments the shadow's local version exactly when the
  delta is not empty; any other edit changes nothing (it is only logged), and the loop goes
  on with the next edit. When a message is allowed and its connection is known, the
  server copy, the backup and the local version the callback leaves in the cache are
  those the loop computed.\<close>

theorem receiveEdit_applies_edits_in_order:
  assumes "data s (msg_room m) = Some doc" and "clientVersions doc (conn_id c) = Some cd"
  shows
    "(\<exists>doc' cd'.
        data (fst (checkDiffsCallback D s c m f None True)) (msg_room m) = Some doc' \<and>
        clientVersions doc' (conn_id c) = Some cd' \<and>
        (let L = forEachEdit D (msg_edits m)
                   (if msg_serverVersion m = Some (shadow_serverVersion (cd_shadow cd))
                    then cd\<lparr>cd_edits := []\<rparr> else cd, serverCopy doc, [])
         in serverCopy doc' = fst (snd L) \<and> cd_backup cd' = cd_backup (fst L) \<and>
            shadow_localVersion (cd_shadow cd') = shadow_localVersion (cd_shadow (fst L))))
     \<and> forEachEdit D es st = foldl (\<lambda>st e. applyEdit D e st) st es
     \<and> applyEdit D e (clientDoc, srvCopy, out) =
         (if edit_serverVersion e = shadow_serverVersion (cd_shadow clientDoc) \<and>
             edit_localVersion e = shadow_localVersion (cd_shadow clientDoc)
          then (\<lparr>cd_backup = \<lparr>backup_doc = shadow_doc (cd_shadow clientDoc),
                              backup_serverVersion = backup_serverVersion (cd_backup clientDoc)\<rparr>,
                 cd_shadow = \<lparr>shadow_doc = jdp_patch D (shadow_doc (cd_shadow clientDoc)) (edit_diff e),
                              shadow_serverVersion = shadow_serverVersion (cd_shadow clientDoc),
                              shadow_localVersion = shadow_localVersion (cd_shadow clientDoc) +
                                (if isEmpty D (edit_diff e) then 0 else 1)\<rparr>,
                 cd_edits = cd_edits clientDoc\<rparr>,
                jdp_patch D srvCopy (edit_diff e), out)
          else (clientDoc, srvCopy,
                out @ [ConsoleLog (edit_serverVersion e) (shadow_serverVersion (cd_shadow clientDoc))
                         (edit_localVersion e) (shadow_localVersion (cd_shadow clientDoc))]))"
proof -
  obtain c2 sc lg where L: "forEachEdit D (msg_edits m)
      (if msg_serverVersion m = Some (shadow_serverVersion (cd_shadow cd))
       then cd\<lparr>cd_edits := []\<rparr> else cd, serverCopy doc, []) = (c2, sc, lg)"
    by (cases "forEachEdit D (msg_edits m)
      (if msg_serverVersion m = Some (shadow_serverVersion (cd_shadow cd))
       then cd\<lparr>cd_edits := []\<rparr> else cd, serverCopy doc, [])") auto
  from backup_localVersion_after_allowed [OF assms L, of f]
  have first: "\<exists>doc' cd'.
        data (fst (checkDiffsCallback D s c m f None True)) (msg_room m) = Some doc' \<and>
        clientVersions doc' (conn_id c) = Some cd' \<and>
        (let L = forEachEdit D (msg_edits m)
                   (if msg_serverVersion m = Some (shadow_serverVersion (cd_shadow cd))
                    then cd\<lparr>cd_edits := []\<rparr> else cd, serverCopy doc, [])
         in serverCopy doc' = fst (snd L) \<and> cd_backup cd' = cd_backup (fst L) \<and>
            shadow_localVersion (cd_shadow cd') = shadow_localVersion (cd_shadow (fst L)))"
    unfolding L by (simp add: Let_def) blast
  have third: "applyEdit D e (clientDoc, srvCopy, out) =
         (if edit_serverVersion e = shadow_serverVersion (cd_shadow clientDoc) \<and>
             edit_localVersion e = shadow_localVersion (cd_shadow clientDoc)
          then (\<lparr>cd_backup = \<lparr>backup_doc = shadow_doc (cd_shadow clientDoc),
                              backup_serverVersion = backup_serverVersion (cd_backup clientDoc)\<rparr>,
                 cd_shadow = \<lparr>shadow_doc = jdp_patch D (shadow_doc (cd_shadow clientDoc)) (edit_diff e),
                              shadow_serverVersion = shadow_serverVersion (cd_shadow clientDoc),
                              shadow_localVersion = shadow_localVersion (cd_shadow clientDoc) +
                                (if isEmpty D (edit_diff e) then 0 else 1)\<rparr>,
                 cd_edits = cd_edits clientDoc\<rparr>,
                jdp_patch D srvCopy (edit_diff e), out)
          else (clientDoc, srvCopy,
                out @ [ConsoleLog (edit_serverVersion e) (shadow_serverVersion (cd_shadow clientDoc))
                         (edit_localVersion e) (shadow_localVersion (cd_shadow clientDoc))]))"
    by (simp add: applyEdit_def Let_def deepCopy_def)
  from first forEachEdit_foldl [of D es st] third show ?thesis by blast
qed

theorem receiveEdit_applies_edits_in_order_witness:
  "\<exists>doc' cd'.
     data (fst (checkDiffsCallback intLibs serverR alice msgR 7 None True)) ''r'' = Some doc' \<and>
     clientVersions doc' ''a'' = Some cd' \<and>
     serverCopy doc' = 8 \<and> cd_backup cd' = \<lparr>backup_doc = 5, backup_serverVersion = 0\<rparr> \<and>
     shadow_localVersion (cd_shadow cd') = 1"
proof -
  have cached: "data serverR (msg_room msgR) = Some roomR"
    by (simp add: serverR_def msgR_def)
  have known: "clientVersions roomR (conn_id alice) = Some aliceDoc"
    by (simp add: roomR_def alice_def)
  have loop: "forEachEdit intLibs (msg_edits msgR)
       (if msg_serverVersion msgR = Some (shadow_serverVersion (cd_shadow aliceDoc))
        then aliceDoc\<lparr>cd_edits := []\<rparr> else aliceDoc, serverCopy roomR, []) =
       (\<lparr>cd_backup = \<lparr>backup_doc = 5, backup_serverVersion = 0\<rparr>,
         cd_shadow = \<lparr>shadow_doc = 8, shadow_serverVersion = 0, shadow_localVersion = 1\<rparr>,
         cd_edits = []\<rparr>, 8, [ConsoleLog 7 0 0 0])"
    by (simp add: msgR_def aliceDoc_def roomR_def applyEdit_def intLibs_def deepCopy_def)
  have room: "msg_room msgR = ''r''" and conn: "conn_id alice = ''a''"
    by (simp_all add: msgR_def alice_def)
  from receiveEdit_applies_edits_in_order [OF cached known, of intLibs 7]
  show ?thesis
    unfolding loop room conn by (simp add: Let_def)
qed

text \<open>C8: with the message allowed and the connection known, the callback first compares
  the message's server version with the shadow's: when they are equal the client's queue
  is emptied, otherwise it is kept. The loop over the edits does not touch the queue, so
  this is the queue when the loop is over; the queue the callback leaves in the cache is
  that queue, followed by the edit sendServerChanges appends when the server copy then
  differs from the shadow.\<close>

theorem acknowledged_edits_are_cleared:
  assumes "data s (msg_room m) = Some doc" and "clientVersions doc (conn_id c) = Some cd"
  shows
    "(let Q = (if msg_serverVersion m = Some (shadow_serverVersion (cd_shadow cd))
               then [] else cd_edits cd);
          L = forEachEdit D (msg_edits m)
                (if msg_serverVersion m = Some (shadow_serverVersion (cd_shadow cd))
                 then cd\<lparr>cd_edits := []\<rparr> else cd, serverCopy doc, []);
          d = jdp_diff D (shadow_doc (cd_shadow (fst L))) (fst (snd L))
      in cd_edits (fst L) = Q \<and>
         (\<exists>doc' cd'.
            data (fst (checkDiffsCallback D s c m f None True)) (msg_room m) = Some doc' \<and>
            clientVersions doc' (conn_id c) = Some cd' \<and>
            cd_edits cd' = Q @
              (if isEmpty D d then []
               else [\<lparr>edit_serverVersion = shadow_serverVersion (cd_shadow cd),
                      edit_localVersion = shadow_localVersion (cd_shadow (fst L)),
                      edit_diff = d\<rparr>])))"
proof -
  let ?c1 = "if msg_serverVersion m = Some (shadow_serverVersion (cd_shadow cd))
             then cd\<lparr>cd_edits := []\<rparr> else cd"
  obtain c2 sc lg where L: "forEachEdit D (msg_edits m) (?c1, serverCopy doc, []) = (c2, sc, lg)"
    by (cases "forEachEdit D (msg_edits m) (?c1, serverCopy doc, [])") auto
  have queue: "cd_edits c2 = cd_edits ?c1"
    using cd_edits_forEachEdit [of D "msg_edits m" "(?c1, serverCopy doc, [])"] L by simp
  have version: "shadow_serverVersion (cd_shadow c2) = shadow_serverVersion (cd_shadow cd)"
    using serverVersion_forEachEdit [of D "msg_edits m" "(?c1, serverCopy doc, [])"] L by simp
  from backup_localVersion_after_allowed [OF assms L, of f] queue version
  show ?thesis
    unfolding Let_def L by (auto simp add: sendServerChanges_queue)
qed

theorem acknowledged_edits_are_cleared_witness:
  "\<exists>doc' cd'.
     data (fst (checkDiffsCallback intLibs serverR alice msgR 7 None True)) ''r'' = Some doc' \<and>
     clientVersions doc' ''a'' = Some cd' \<and> cd_edits cd' = []"
proof -
  have cached: "data serverR (msg_room msgR) = Some roomR"
    by (simp add: serverR_def msgR_def)
  have known: "clientVersions roomR (conn_id alice) = Some aliceDoc"
    by (simp add: roomR_def alice_def)
  have loop: "forEachEdit intLibs (msg_edits msgR)
       (if msg_serverVersion msgR = Some (shadow_serverVersion (cd_shadow aliceDoc))
        then aliceDoc\<lparr>cd_edits := []\<rparr> else aliceDoc, serverCopy roomR, []) =
       (\<lparr>cd_backup = \<lparr>backup_doc = 5, backup_serverVersion = 0\<rparr>,
         cd_shadow = \<lparr>shadow_doc = 8, shadow_serverVersion = 0, shadow_localVersion = 1\<rparr>,
         cd_edits = []\<rparr>, 8, [ConsoleLog 7 0 0 0])"
    by (simp add: msgR_def aliceDoc_def roomR_def applyEdit_def intLibs_def deepCopy_def)
  have room: "msg_room msgR = ''r''" and conn: "conn_id alice = ''a''"
    and acked: "msg_serverVersion msgR = Some (shadow_serverVersion (cd_shadow aliceDoc))"
    by (simp_all add: msgR_def alice_def aliceDoc_def)
  from acknowledged_edits_are_cleared [OF cached known, of intLibs 7]
  show ?thesis
    unfolding Let_def loop room conn by (simp add: acked intLibs_def)
qed

subsection \<open>Coalesced saves\<close>

lemma run_Nil: "run D [] sys = sys"
  by (simp add: run_def)

lemma run_Cons: "run D (ev # evs) sys = run D evs (step D sys ev)"
  by (simp add: run_def)

lemma run_snoc: "run D (evs @ [ev]) sys = step D (run D evs sys) ev"
  by (simp add: run_def)

text \<open>The equations that evaluate a run on concrete events.\<close>

lemmas run_simps = run_Cons run_Nil initial_def newServer_def joinConnection_def receiveEdit_def
  getData.simps saveSnapshot.simps checkQueueAndSaveAgain.simps perform_def outstanding_def
  complete_def adapterGetDataCallback_def truthy_def deepCopy_def

text \<open>Calls of saveSnapshot that arrive while the room's flag is set only set the queue
  flag.\<close>

lemma step_SaveSnapshot_busy:
  "truthy (saveRequests (srv sys) r) \<Longrightarrow>
   step D sys (SaveSnapshot r es u) =
     sys\<lparr>srv := (srv sys)\<lparr>saveQueue := (saveQueue (srv sys))(r \<mapsto> True)\<rparr>\<rparr>"
  by (simp add: saveSnapshot_busy perform_def)

lemma run_SaveSnapshot_busy:
  "truthy (saveRequests (srv sys) r) \<Longrightarrow> arrivals \<noteq> [] \<Longrightarrow>
   run D (map (\<lambda>a. SaveSnapshot r (fst a) (snd a)) arrivals) sys =
     sys\<lparr>srv := (srv sys)\<lparr>saveQueue := (saveQueue (srv sys))(r \<mapsto> True)\<rparr>\<rparr>"
proof (induction arrivals arbitrary: sys)
  case Nil
  then show ?case by simp
next
  case (Cons a arrivals)
  let ?sys = "sys\<lparr>srv := (srv sys)\<lparr>saveQueue := (saveQueue (srv sys))(r \<mapsto> True)\<rparr>\<rparr>"
  have first: "step D sys (SaveSnapshot r (fst a) (snd a)) = ?sys"
    by (rule step_SaveSnapshot_busy [OF Cons.prems(1)])
  have busy: "truthy (saveRequests (srv ?sys) r)"
    using Cons.prems(1) by simp
  show ?case
  proof (cases "arrivals = []")
    case True
    then show ?thesis
      by (simp only: list.map run_Cons run_Nil first)
  next
    case False
    have same: "?sys\<lparr>srv := (srv ?sys)\<lparr>saveQueue := (saveQueue (srv ?sys))(r \<mapsto> True)\<rparr>\<rparr> = ?sys"
      by simp
    from Cons.IH [OF busy False] show ?thesis
      by (simp only: list.map run_Cons first same)
  qed
qed

text \<open>C10: a call of saveSnapshot that finds no save in progress hands its own edits and
  userid to storeData. Calls for the same room that arrive before that save completes,
  whatever their arguments, perform nothing. When the save completes, the one follow-up
  storeData gets the edits and the userid of the call that started the save; only the
  document is read again from the cache.\<close>

theorem coalesced_save_keeps_first_arguments:
  assumes "\<not> truthy (saveRequests (srv sys) r)" and "data (srv sys) r = Some rs"
    and "arrivals \<noteq> []"
  shows
    "(let K = CheckQueueAndSaveAgain r es u;
          sys1 = step D sys (SaveSnapshot r es u);
          sys2 = run D (map (\<lambda>a. SaveSnapshot r (fst a) (snd a)) arrivals) sys1;
          sys3 = step D sys2 (StoreDataDone (length (pending sys)))
      in pending sys1 = pending sys @ [AdapterStoreData r u (serverCopy rs) es K]
       \<and> pending sys2 = pending sys1 \<and> trace sys2 = trace sys1
       \<and> pending sys3 = pending sys @ [AdapterStoreData r u (serverCopy rs) es K]
       \<and> trace sys3 = trace sys1 @ [AdapterStoreData r u (serverCopy rs) es K])
     \<and> (\<forall>t rs'. saveQueue t r = Some True \<and> data t r = Some rs' \<longrightarrow>
          snd (storeDataCallback t (CheckQueueAndSaveAgain r es u)) =
            [AdapterStoreData r u (serverCopy rs') es (CheckQueueAndSaveAgain r es u)])"
proof -
  let ?K = "CheckQueueAndSaveAgain r es u"
  let ?a = "AdapterStoreData r u (serverCopy rs) es ?K"
  let ?s1 = "(srv sys)\<lparr>saveRequests := (saveRequests (srv sys))(r \<mapsto> True)\<rparr>"
  let ?sys1 = "\<lparr>srv = ?s1, pending = pending sys @ [?a], trace = trace sys @ [?a]\<rparr>"
  let ?sys2 = "?sys1\<lparr>srv := ?s1\<lparr>saveQueue := (saveQueue ?s1)(r \<mapsto> True)\<rparr>\<rparr>"
  have one: "step D sys (SaveSnapshot r es u) = ?sys1"
    using assms(1,2) by (simp add: saveSnapshot_idle_cached perform_def)
  have two: "run D (map (\<lambda>a. SaveSnapshot r (fst a) (snd a)) arrivals) ?sys1 = ?sys2"
    using assms(3) by (simp add: run_SaveSnapshot_busy truthy_def)
  have three: "step D ?sys2 (StoreDataDone (length (pending sys))) =
      \<lparr>srv = ?s1\<lparr>saveRequests := (saveRequests ?s1)(r \<mapsto> True),
                  saveQueue := (saveQueue ?s1)(r \<mapsto> False)\<rparr>,
       pending = pending sys @ [?a], trace = trace sys @ [?a, ?a]\<rparr>"
    using assms(2)
    by (simp add: outstanding_def complete_def perform_def checkQueueAndSaveAgain_queued)
  have general: "\<forall>t rs'. saveQueue t r = Some True \<and> data t r = Some rs' \<longrightarrow>
          snd (storeDataCallback t ?K) = [AdapterStoreData r u (serverCopy rs') es ?K]"
    by (simp add: checkQueueAndSaveAgain_queued)
  show ?thesis
    unfolding Let_def one two three using general by simp
qed

theorem coalesced_save_keeps_first_arguments_witness:
  "pending (step intLibs
      (run intLibs [SaveSnapshot ''r'' [] ''bob'', SaveSnapshot ''r'' [] ''carol'']
         (step intLibs \<lparr>srv = serverR, pending = [], trace = []\<rparr>
            (SaveSnapshot ''r'' (msg_edits msgR) ''alice'')))
      (StoreDataDone 0)) =
   [AdapterStoreData ''r'' ''alice'' 5 (msg_edits msgR)
      (CheckQueueAndSaveAgain ''r'' (msg_edits msgR) ''alice'')]
   \<and> snd (storeDataCallback (serverR\<lparr>saveQueue := [''r'' \<mapsto> True]\<rparr>)
          (CheckQueueAndSaveAgain ''r'' (msg_edits msgR) ''alice'')) =
       [AdapterStoreData ''r'' ''alice'' 5 (msg_edits msgR)
          (CheckQueueAndSaveAgain ''r'' (msg_edits msgR) ''alice'')]"
proof -
  have idle: "\<not> truthy (saveRequests (srv \<lparr>srv = serverR, pending = [], trace = []\<rparr>) ''r'')"
    by (simp add: serverR_def truthy_def)
  have cached: "data (srv \<lparr>srv = serverR, pending = [], trace = []\<rparr>) ''r'' = Some roomR"
    by (simp add: serverR_def)
  have arrivals: "[([], ''bob''), ([], ''carol'')] \<noteq> ([] :: (int edit list \<times> string) list)"
    by simp
  note inst = coalesced_save_keeps_first_arguments [OF idle cached arrivals,
      where D = intLibs and es = "msg_edits msgR" and u = "''alice''", unfolded Let_def]
  from inst
  have "pending (step intLibs
      (run intLibs (map (\<lambda>a. SaveSnapshot ''r'' (fst a) (snd a)) [([], ''bob''), ([], ''carol'')])
         (step intLibs \<lparr>srv = serverR, pending = [], trace = []\<rparr>
            (SaveSnapshot ''r'' (msg_edits msgR) ''alice'')))
      (StoreDataDone (length (pending \<lparr>srv = serverR, pending = [], trace = []\<rparr>)))) =
    pending \<lparr>srv = serverR, pending = [], trace = []\<rparr> @
    [AdapterStoreData ''r'' ''alice'' (serverCopy roomR) (msg_edits msgR)
      (CheckQueueAndSaveAgain ''r'' (msg_edits msgR) ''alice'')]"
    by (elim conjE)
  then have first: "pending (step intLibs
      (run intLibs [SaveSnapshot ''r'' [] ''bob'', SaveSnapshot ''r'' [] ''carol'']
         (step intLibs \<lparr>srv = serverR, pending = [], trace = []\<rparr>
            (SaveSnapshot ''r'' (msg_edits msgR) ''alice'')))
      (StoreDataDone 0)) =
   [AdapterStoreData ''r'' ''alice'' 5 (msg_edits msgR)
      (CheckQueueAndSaveAgain ''r'' (msg_edits msgR) ''alice'')]"
    by (simp add: roomR_def del: step.simps)
  have queued: "saveQueue (serverR\<lparr>saveQueue := [''r'' \<mapsto> True]\<rparr>) ''r'' = Some True \<and>
      data (serverR\<lparr>saveQueue := [''r'' \<mapsto> True]\<rparr>) ''r'' = Some roomR"
    by (simp add: serverR_def)
  from inst [THEN conjunct2, rule_format, OF queued]
  have second: "snd (storeDataCallback (serverR\<lparr>saveQueue := [''r'' \<mapsto> True]\<rparr>)
          (CheckQueueAndSaveAgain ''r'' (msg_edits msgR) ''alice'')) =
       [AdapterStoreData ''r'' ''alice'' 5 (msg_edits msgR)
          (CheckQueueAndSaveAgain ''r'' (msg_edits msgR) ''alice'')]"
    by (simp add: roomR_def del: storeDataCallback.simps)
  from first second show ?thesis by (rule conjI)
qed

subsection \<open>The invariant is kept\<close>

lemma loads_simps [simp]:
  "loads r [] = 0"
  "loads r (as @ bs) = loads r as + loads r bs"
  "loads r (AdapterGetData room u cb # as) = (if room = r then 1 else 0) + loads r as"
  "loads r (AdapterCheckDiffs m d c f # as) = loads r as"
  "loads r (AdapterStoreData room u dc es k # as) = loads r as"
  "loads r (ConnectionJoin c room # as) = loads r as"
  "loads r (ConnectionEmit c cmd txt # as) = loads r as"
  "loads r (TransportToEmit room cmd i # as) = loads r as"
  "loads r (InitializeClient f dc # as) = loads r as"
  "loads r (SendToClient f rp # as) = loads r as"
  "loads r (ConsoleLog v1 v2 v3 v4 # as) = loads r as"
  "loads r (TypeError # as) = loads r as"
  by (simp_all add: loads_def)

lemma stores_simps [simp]:
  "stores r [] = 0"
  "stores r (as @ bs) = stores r as + stores r bs"
  "stores r (AdapterGetData room u cb # as) = stores r as"
  "stores r (AdapterCheckDiffs m d c f # as) = stores r as"
  "stores r (AdapterStoreData room u dc es k # as) = (if room = r then 1 else 0) + stores r as"
  "stores r (ConnectionJoin c room # as) = stores r as"
  "stores r (ConnectionEmit c cmd txt # as) = stores r as"
  "stores r (TransportToEmit room cmd i # as) = stores r as"
  "stores r (InitializeClient f dc # as) = stores r as"
  "stores r (SendToClient f rp # as) = stores r as"
  "stores r (ConsoleLog v1 v2 v3 v4 # as) = stores r as"
  "stores r (TypeError # as) = stores r as"
  by (simp_all add: stores_def)

lemma saveLoads_simps [simp]:
  "saveLoads r [] = 0"
  "saveLoads r (as @ bs) = saveLoads r as + saveLoads r bs"
  "saveLoads r (AdapterGetData room u (SaveSnapshotCb room' es' u') # as) =
     (if room = r then 1 else 0) + saveLoads r as"
  "saveLoads r (AdapterGetData room u (JoinCb c room' f) # as) = saveLoads r as"
  "saveLoads r (AdapterGetData room u (ReceiveEditCb c m f) # as) = saveLoads r as"
  "saveLoads r (AdapterCheckDiffs m d c f # as) = saveLoads r as"
  "saveLoads r (AdapterStoreData room u dc es k # as) = saveLoads r as"
  "saveLoads r (ConnectionJoin c room # as) = saveLoads r as"
  "saveLoads r (ConnectionEmit c cmd txt # as) = saveLoads r as"
  "saveLoads r (TransportToEmit room cmd i # as) = saveLoads r as"
  "saveLoads r (InitializeClient f dc # as) = saveLoads r as"
  "saveLoads r (SendToClient f rp # as) = saveLoads r as"
  "saveLoads r (ConsoleLog v1 v2 v3 v4 # as) = saveLoads r as"
  "saveLoads r (TypeError # as) = saveLoads r as"
  by (simp_all add: saveLoads_def)

lemma saveLoads_le_loads: "saveLoads r as \<le> loads r as"
proof (induction as)
  case Nil
  then show ?case by simp
next
  case (Cons a as)
  then show ?case
    by (cases "(r, a)" rule: isSaveLoadFor.cases) (auto simp add: saveLoads_def loads_def)
qed

lemma filter_narrower:
  assumes "\<And>a. Q a \<Longrightarrow> isAdapterCall a"
  shows "filter Q (filter isAdapterCall as) = filter Q as"
  using assms by (induction as) auto

lemma filter_calls [simp]:
  "loads r (filter isAdapterCall as) = loads r as"
  "stores r (filter isAdapterCall as) = stores r as"
  "saveLoads r (filter isAdapterCall as) = saveLoads r as"
proof -
  have "isAdapterCall a" if "isGetDataFor r a" for a :: "('a, 'b) action"
    using that by (cases a) simp_all
  then show "loads r (filter isAdapterCall as) = loads r as"
    unfolding loads_def by (simp only: filter_narrower)
  have "isAdapterCall a" if "isStoreDataFor r a" for a :: "('a, 'b) action"
    using that by (cases a) simp_all
  then show "stores r (filter isAdapterCall as) = stores r as"
    unfolding stores_def by (simp only: filter_narrower)
  have "isAdapterCall a" if "isSaveLoadFor r a" for a :: "('a, 'b) action"
    using that by (cases a) simp_all
  then show "saveLoads r (filter isAdapterCall as) = saveLoads r as"
    unfolding saveLoads_def by (simp only: filter_narrower)
qed

text \<open>Removing the i-th outstanding request.\<close>

lemma count_remove:
  assumes "i < length P"
  shows "length (filter Q P) =
         length (filter Q (take i P @ drop (Suc i) P)) + (if Q (P ! i) then 1 else 0)"
proof -
  have "P = take i P @ P ! i # drop (Suc i) P"
    using assms by (simp add: id_take_nth_drop)
  then have "filter Q P = filter Q (take i P @ P ! i # drop (Suc i) P)"
    by simp
  then show ?thesis by simp
qed

lemma list_all_remove: "list_all Q P \<Longrightarrow> list_all Q (take i P @ drop (Suc i) P)"
  by (auto simp add: list_all_iff dest: in_set_takeD in_set_dropD)

lemma list_all_nth: "list_all Q P \<Longrightarrow> i < length P \<Longrightarrow> Q (P ! i)"
  by (simp add: list_all_length)


lemma roomInv_frame:
  assumes "roomInv s P T r"
    and "(data s' r = None) = (data s r = None)"
    and "truthy (requests s' r) = truthy (requests s r)"
    and "truthy (saveRequests s r) \<Longrightarrow> truthy (saveRequests s' r)"
    and "loads r acts = 0" and "stores r acts = 0"
    and "loads r P0 = loads r P" and "stores r P0 = stores r P"
    and "saveLoads r P0 \<le> saveLoads r P"
  shows "roomInv s' (P0 @ filter isAdapterCall acts) (T @ acts) r"
proof -
  have "saveLoads r acts = 0"
    using saveLoads_le_loads [of r acts] assms(5) by simp
  with assms show ?thesis
    by (cases "data s r"; cases "data s' r") (auto simp add: roomInv_def)
qed

text \<open>getData with one of the server's closures, on a server that satisfies the
  invariant for the room.\<close>

lemma roomInv_getData:
  assumes inv: "roomInv s P T r" and cb: "cbRoom cb = room"
    and save: "0 < saveLoads r [AdapterGetData room u cb] \<Longrightarrow>
               truthy (saveRequests s r) \<and> stores r P = 0"
    and res: "getData s room u cb = (s', acts)"
  shows "roomInv s' (P @ filter isAdapterCall acts) (T @ acts) r"
proof (cases "data s room")
  case None
  show ?thesis
  proof (cases "truthy (requests s room)")
    case True
    with None res have "s' = s\<lparr>requests := (requests s)(room \<mapsto> True)\<rparr>" "acts = []"
      by (simp_all add: getData_dropped)
    with inv True show ?thesis
      by (intro roomInv_frame [OF inv]) (auto simp add: truthy_def)
  next
    case False
    with None res have *: "s' = s\<lparr>requests := (requests s)(room \<mapsto> True)\<rparr>"
      "acts = [AdapterGetData room u cb]"
      by (simp_all add: getData_load)
    show ?thesis
    proof (cases "r = room")
      case True
      with inv None False save * show ?thesis
        by (cases cb) (auto simp add: roomInv_def truthy_def)
    next
      case neq: False
      with * have "saveLoads r acts = 0" "loads r acts = 0"
        by (cases cb; simp)+
      with inv neq * show ?thesis
        by (intro roomInv_frame [OF inv]) (auto simp add: truthy_def)
    qed
  qed
next
  case (Some rs)
  show ?thesis
  proof (cases cb)
    case (JoinCb c room' f)
    with cb Some res obtain x where *: "data s' = (data s)(room \<mapsto> x)"
      "requests s' = requests s" "saveRequests s' = saveRequests s"
      "acts = [ConnectionJoin c room, InitializeClient f (serverCopy rs)]"
      by (auto simp add: getData_cached)
    with Some show ?thesis
      by (intro roomInv_frame [OF inv]) auto
  next
    case (ReceiveEditCb c m f)
    with Some res have "s' = s" "acts = [AdapterCheckDiffs m rs c f]"
      by (auto simp add: getData_cached)
    then show ?thesis
      by (intro roomInv_frame [OF inv]) auto
  next
    case (SaveSnapshotCb room' es u')
    with cb Some res have *: "s' = s"
      "acts = [AdapterStoreData room u' (serverCopy rs) es (CheckQueueAndSaveAgain room es u')]"
      by (auto simp add: getData_cached)
    show ?thesis
    proof (cases "r = room")
      case True
      with inv Some save SaveSnapshotCb * show ?thesis
        by (auto simp add: roomInv_def)
    next
      case False
      with * show ?thesis
        by (intro roomInv_frame [OF inv]) auto
    qed
  qed
qed


lemma roomInv_eqI:
  assumes "roomInv s P T r"
    and "(data s' r = None) = (data s r = None)"
    and "truthy (requests s' r) = truthy (requests s r)"
    and "truthy (saveRequests s r) \<Longrightarrow> truthy (saveRequests s' r)"
    and "loads r P' = loads r P" and "loads r T' = loads r T"
    and "stores r P' = stores r P" and "saveLoads r P' \<le> saveLoads r P"
  shows "roomInv s' P' T' r"
  using assms by (cases "data s r"; cases "data s' r") (auto simp add: roomInv_def)

lemma roomInv_saveSnapshot:
  assumes inv: "roomInv s P T r" and res: "saveSnapshot s room es u = (s', acts)"
  shows "roomInv s' (P @ filter isAdapterCall acts) (T @ acts) r"
proof (cases "truthy (saveRequests s room)")
  case True
  with res have "s' = s\<lparr>saveQueue := (saveQueue s)(room \<mapsto> True)\<rparr>" "acts = []"
    by (simp_all add: saveSnapshot_busy)
  then show ?thesis
    by (intro roomInv_frame [OF inv]) auto
next
  case False
  let ?s1 = "s\<lparr>saveRequests := (saveRequests s)(room \<mapsto> True)\<rparr>"
  from False res have get: "getData ?s1 room u (SaveSnapshotCb room es u) = (s', acts)"
    by (simp add: saveSnapshot_idle)
  have inv1: "roomInv ?s1 P T r"
    by (rule roomInv_eqI [OF inv]) (auto simp add: truthy_def)
  have "truthy (saveRequests ?s1 r) \<and> stores r P = 0" if "r = room"
    using that inv False by (auto simp add: roomInv_def truthy_def)
  then show ?thesis
    by (intro roomInv_getData [OF inv1 _ _ get]) (auto split: if_splits)
qed

lemma wellFormed_getData:
  "cbRoom cb = room \<Longrightarrow> list_all wellFormed (snd (getData s room u cb))"
  by (cases cb; cases "data s room") (auto simp add: getData.simps)

lemma wellFormed_saveSnapshot: "list_all wellFormed (snd (saveSnapshot s room es u))"
  by (cases "truthy (saveRequests s room)")
     (simp_all add: saveSnapshot_busy saveSnapshot_idle wellFormed_getData)

lemma wellFormed_checkQueueAndSaveAgain:
  "list_all wellFormed (snd (checkQueueAndSaveAgain s room es u))"
  by (simp add: checkQueueAndSaveAgain.simps wellFormed_saveSnapshot)

lemma log_applyEdit:
  "\<exists>lg. snd (snd (applyEdit D e st)) = snd (snd st) @ lg \<and>
        list_all wellFormed lg \<and> filter isAdapterCall lg = []"
  by (cases st) (simp add: applyEdit_def Let_def)

lemma log_forEachEdit:
  "\<exists>lg. snd (snd (forEachEdit D es st)) = snd (snd st) @ lg \<and>
        list_all wellFormed lg \<and> filter isAdapterCall lg = []"
proof (induction es arbitrary: st)
  case Nil
  then show ?case by simp
next
  case (Cons e es)
  from log_applyEdit [of D e st] obtain l1 where
    l1: "snd (snd (applyEdit D e st)) = snd (snd st) @ l1" "list_all wellFormed l1"
      "filter isAdapterCall l1 = []"
    by blast
  from Cons.IH [of "applyEdit D e st"] obtain l2 where
    l2: "snd (snd (forEachEdit D es (applyEdit D e st))) = snd (snd (applyEdit D e st)) @ l2"
      "list_all wellFormed l2" "filter isAdapterCall l2 = []"
    by blast
  from l1 l2 show ?case
    by (intro exI [of _ "l1 @ l2"]) simp
qed


lemma silent:
  assumes "filter isAdapterCall as = []"
  shows "loads r as = 0" and "stores r as = 0" and "saveLoads r as = 0"
  using filter_calls(1) [of r as] filter_calls(2) [of r as] filter_calls(3) [of r as] assms
  by simp_all

lemma checkDiffsCallback_cases:
  assumes "checkDiffsCallback D s c m f err res = (s', acts)"
  shows "(s' = s \<and> filter isAdapterCall acts = [] \<and> list_all wellFormed acts) \<or>
         (\<exists>doc doc2 doc3 s3 saved lg rest.
            data s (msg_room m) = Some doc \<and>
            saveSnapshot (s\<lparr>data := (data s)(msg_room m \<mapsto> doc2)\<rparr>) (msg_room m)
              (msg_edits m) (conn_userid c) = (s3, saved) \<and>
            s' = s3\<lparr>data := (data s3)(msg_room m \<mapsto> doc3)\<rparr> \<and>
            acts = lg @ saved @ rest \<and>
            filter isAdapterCall lg = [] \<and> filter isAdapterCall rest = [] \<and>
            list_all wellFormed lg \<and> list_all wellFormed rest)"
proof (cases "data s (msg_room m)")
  case None
  with assms show ?thesis by (simp add: checkDiffsCallback_def)
next
  case (Some doc)
  show ?thesis
  proof (cases "res \<and> err = None \<and> clientVersions doc (conn_id c) \<noteq> None")
    case False
    with Some assms have "s' = s \<and> filter isAdapterCall acts = [] \<and> list_all wellFormed acts"
      by (auto simp add: checkDiffsCallback_def split: option.splits if_splits)
    then show ?thesis by (rule disjI1)
  next
    case True
    then obtain cd where cd: "clientVersions doc (conn_id c) = Some cd" and "res" "err = None"
      by auto
    let ?c1 = "if msg_serverVersion m = Some (shadow_serverVersion (cd_shadow cd))
               then cd\<lparr>cd_edits := []\<rparr> else cd"
    obtain c2 sc lg where L: "forEachEdit D (msg_edits m) (?c1, serverCopy doc, []) = (c2, sc, lg)"
      by (cases "forEachEdit D (msg_edits m) (?c1, serverCopy doc, [])") auto
    from log_forEachEdit [of D "msg_edits m" "(?c1, serverCopy doc, [])"] L
    have lg: "list_all wellFormed lg" "filter isAdapterCall lg = []"
      by auto
    let ?doc2 = "doc\<lparr>serverCopy := sc, clientVersions := (clientVersions doc)(conn_id c \<mapsto> c2)\<rparr>"
    obtain s3 saved where S: "saveSnapshot (s\<lparr>data := (data s)(msg_room m \<mapsto> ?doc2)\<rparr>)
        (msg_room m) (msg_edits m) (conn_userid c) = (s3, saved)"
      by (cases "saveSnapshot (s\<lparr>data := (data s)(msg_room m \<mapsto> ?doc2)\<rparr>)
        (msg_room m) (msg_edits m) (conn_userid c)") auto
    let ?rest = "(if length (msg_edits m) > 0
                  then [TransportToEmit (msg_room m) CmdRemoteUpdateIncoming (conn_id c)] else [])
                 @ snd (sendServerChanges D ?doc2 c2 f)"
    let ?doc3 = "?doc2\<lparr>clientVersions := (clientVersions ?doc2)
                   (conn_id c \<mapsto> fst (sendServerChanges D ?doc2 c2 f))\<rparr>"
    have rest: "filter isAdapterCall ?rest = []" "list_all wellFormed ?rest"
      by (simp_all add: sendServerChanges_sent)
    from assms Some cd \<open>res\<close> \<open>err = None\<close> L S
    have "s' = s3\<lparr>data := (data s3)(msg_room m \<mapsto> ?doc3)\<rparr>" "acts = lg @ saved @ ?rest"
      by (auto simp add: checkDiffsCallback_def Let_def split: prod.splits)
    with Some S lg rest show ?thesis
      by blast
  qed
qed

lemma data_getData_save:
  "data (fst (getData s r u (SaveSnapshotCb r es u))) = data s"
  by (cases "data s r") (simp_all add: getData.simps)

lemma data_saveSnapshot: "data (fst (saveSnapshot s r es u)) = data s"
  by (cases "truthy (saveRequests s r)")
     (simp_all add: saveSnapshot_busy saveSnapshot_idle data_getData_save)

lemma roomInv_checkDiffsCallback:
  assumes inv: "roomInv s P T r"
    and res: "checkDiffsCallback D s c m f err rs = (s', acts)"
  shows "roomInv s' (P @ filter isAdapterCall acts) (T @ acts) r"
  using checkDiffsCallback_cases [OF res]
proof (elim disjE exE conjE)
  assume "s' = s" "filter isAdapterCall acts = []"
  with silent [of acts r] show ?thesis
    by (intro roomInv_frame [OF inv]) auto
next
  fix doc doc2 doc3 s3 saved lg rest
  assume cached: "data s (msg_room m) = Some doc"
    and save: "saveSnapshot (s\<lparr>data := (data s)(msg_room m \<mapsto> doc2)\<rparr>) (msg_room m)
                 (msg_edits m) (conn_userid c) = (s3, saved)"
    and s': "s' = s3\<lparr>data := (data s3)(msg_room m \<mapsto> doc3)\<rparr>"
    and acts: "acts = lg @ saved @ rest"
    and quiet: "filter isAdapterCall lg = []" "filter isAdapterCall rest = []"
  have inv2: "roomInv (s\<lparr>data := (data s)(msg_room m \<mapsto> doc2)\<rparr>) P T r"
    using cached by (intro roomInv_eqI [OF inv]) auto
  have inv3: "roomInv s3 (P @ filter isAdapterCall saved) (T @ saved) r"
    by (rule roomInv_saveSnapshot [OF inv2 save])
  have kept: "data s3 = (data s)(msg_room m \<mapsto> doc2)"
    using data_saveSnapshot [of "s\<lparr>data := (data s)(msg_room m \<mapsto> doc2)\<rparr>" "msg_room m"
        "msg_edits m" "conn_userid c"] save by simp
  show ?thesis
    unfolding s' acts
    using silent [OF quiet(1), of r] silent [OF quiet(2), of r] kept
    by (intro roomInv_eqI [OF inv3]) auto
qed

lemma wellFormed_checkDiffsCallback:
  "list_all wellFormed (snd (checkDiffsCallback D s c m f err rs))"
proof -
  obtain s' acts where res: "checkDiffsCallback D s c m f err rs = (s', acts)"
    by (cases "checkDiffsCallback D s c m f err rs") auto
  from checkDiffsCallback_cases [OF res] have "list_all wellFormed acts"
  proof (elim disjE exE conjE)
    fix doc doc2 doc3 s3 saved lg rest
    assume save: "saveSnapshot (s\<lparr>data := (data s)(msg_room m \<mapsto> doc2)\<rparr>) (msg_room m)
                 (msg_edits m) (conn_userid c) = (s3, saved)"
      and acts: "acts = lg @ saved @ rest"
      and wf: "list_all wellFormed lg" "list_all wellFormed rest"
    from wellFormed_saveSnapshot [of "s\<lparr>data := (data s)(msg_room m \<mapsto> doc2)\<rparr>"
        "msg_room m" "msg_edits m" "conn_userid c"] save
    have "list_all wellFormed saved" by simp
    with wf acts show ?thesis by simp
  qed
  with res show ?thesis by simp
qed


lemma counts_remove:
  assumes "i < length P"
  shows "loads r P = loads r (take i P @ drop (Suc i) P) + (if isGetDataFor r (P ! i) then 1 else 0)"
    and "stores r P = stores r (take i P @ drop (Suc i) P) + (if isStoreDataFor r (P ! i) then 1 else 0)"
    and "saveLoads r P = saveLoads r (take i P @ drop (Suc i) P) + (if isSaveLoadFor r (P ! i) then 1 else 0)"
  unfolding loads_def stores_def saveLoads_def
  by (rule count_remove [OF assms])+

lemma roomInv_loaded:
  assumes inv: "roomInv s P T r" and i: "i < length P"
    and at: "P ! i = AdapterGetData room u cb" and wf: "cbRoom cb = room"
    and res: "adapterGetDataCallback s room cb err dat = (s', acts)"
  shows "roomInv s' ((take i P @ drop (Suc i) P) @ filter isAdapterCall acts) (T @ acts) r"
proof -
  let ?P0 = "take i P @ drop (Suc i) P"
  let ?new = "\<lparr>registeredSockets = [], clientVersions = Map.empty, serverCopy = dat\<rparr>"
  let ?s2 = "s\<lparr>data := (data s)(room \<mapsto> ?new), requests := (requests s)(room \<mapsto> False)\<rparr>"
  note cnt = counts_remove [OF i, of r, unfolded at]
  have get: "getData ?s2 room u cb = (s', acts)"
    using res by (simp add: adapterGetDataCallback_def Let_def getData_cached)
  have inv2: "roomInv ?s2 ?P0 T r"
  proof (cases "r = room")
    case False
    with cnt show ?thesis
      by (intro roomInv_eqI [OF inv]) auto
  next
    case True
    with inv cnt saveLoads_le_loads [of r ?P0] show ?thesis
      by (cases "data s r") (auto simp add: roomInv_def)
  qed
  have "truthy (saveRequests ?s2 r) \<and> stores r ?P0 = 0"
    if "0 < saveLoads r [AdapterGetData room u cb]"
  proof -
    from that obtain room' es2 u2 where "cb = SaveSnapshotCb room' es2 u2" and "r = room"
      by (cases cb) (simp_all split: if_splits)
    with inv cnt show ?thesis
      by (cases "data s r") (auto simp add: roomInv_def)
  qed
  then show ?thesis
    by (intro roomInv_getData [OF inv2 wf _ get]) auto
qed

lemma roomInv_stored:
  assumes inv: "roomInv s P T r" and i: "i < length P"
    and at: "P ! i = AdapterStoreData room u d es k"
    and res: "checkQueueAndSaveAgain s room es' u' = (s', acts)"
  shows "roomInv s' ((take i P @ drop (Suc i) P) @ filter isAdapterCall acts) (T @ acts) r"
proof -
  let ?P0 = "take i P @ drop (Suc i) P"
  note cnt = counts_remove [OF i, of r, unfolded at]
  have inv1: "roomInv s1 ?P0 T r"
    if "data s1 = data s" "requests s1 = requests s"
      "saveRequests s1 = (saveRequests s)(room \<mapsto> False)" for s1
  proof (cases "r = room")
    case False
    with cnt that show ?thesis
      by (intro roomInv_eqI [OF inv]) auto
  next
    case True
    with inv cnt that saveLoads_le_loads [of r ?P0] show ?thesis
      by (cases "data s r") (auto simp add: roomInv_def)
  qed
  show ?thesis
  proof (cases "saveQueue s room = Some True")
    case True
    let ?s1 = "s\<lparr>saveRequests := (saveRequests s)(room \<mapsto> False),
                  saveQueue := (saveQueue s)(room \<mapsto> False)\<rparr>"
    from True res have "saveSnapshot ?s1 room es' u' = (s', acts)"
      by (simp add: checkQueueAndSaveAgain.simps)
    moreover have "roomInv ?s1 ?P0 T r"
      by (rule inv1) simp_all
    ultimately show ?thesis
      by (rule roomInv_saveSnapshot [rotated])
  next
    case False
    with res have "s' = s\<lparr>saveRequests := (saveRequests s)(room \<mapsto> False)\<rparr>" "acts = []"
      by (simp_all add: checkQueueAndSaveAgain_idle)
    with inv1 [of s'] show ?thesis by simp
  qed
qed

lemma roomInv_removed:
  assumes inv: "roomInv s P T r" and i: "i < length P"
    and at: "P ! i = AdapterCheckDiffs m d c f"
  shows "roomInv s (take i P @ drop (Suc i) P) T r"
  using counts_remove [OF i, of r, unfolded at]
  by (intro roomInv_eqI [OF inv]) auto

lemma wellFormed_adapterGetDataCallback:
  "cbRoom cb = room \<Longrightarrow> list_all wellFormed (snd (adapterGetDataCallback s room cb err dat))"
  by (cases cb) (simp_all add: adapterGetDataCallback_def Let_def)

lemma invariant_perform:
  assumes "list_all wellFormed P0" and "list_all wellFormed (snd res)"
    and "\<And>r. roomInv (fst res) (P0 @ filter isAdapterCall (snd res)) (T @ snd res) r"
  shows "invariant (perform \<lparr>srv = s0, pending = P0, trace = T\<rparr> res)"
  using assms by (auto simp add: invariant_def perform_def list_all_iff)

lemma invariant_step:
  assumes "invariant sys"
  shows "invariant (step D sys ev)"
proof -
  from assms have wf: "list_all wellFormed (pending sys)"
    and inv: "roomInv (srv sys) (pending sys) (trace sys) r" for r
    by (simp_all add: invariant_def)
  have sys: "sys = \<lparr>srv = srv sys, pending = pending sys, trace = trace sys\<rparr>"
    by simp
  have removed: "complete i sys =
      \<lparr>srv = srv sys, pending = take i (pending sys) @ drop (Suc i) (pending sys),
       trace = trace sys\<rparr>" for i
    by (simp add: complete_def)
  show ?thesis
  proof (cases ev)
    case (Join c room f)
    have "invariant (perform \<lparr>srv = srv sys, pending = pending sys, trace = trace sys\<rparr>
            (getData (srv sys) room (conn_userid c) (JoinCb c room f)))"
    proof (rule invariant_perform [OF wf])
      show "list_all wellFormed (snd (getData (srv sys) room (conn_userid c) (JoinCb c room f)))"
        by (simp add: wellFormed_getData)
      show "roomInv (fst (getData (srv sys) room (conn_userid c) (JoinCb c room f)))
              (pending sys @ filter isAdapterCall
                 (snd (getData (srv sys) room (conn_userid c) (JoinCb c room f))))
              (trace sys @ snd (getData (srv sys) room (conn_userid c) (JoinCb c room f))) r" for r
        by (rule roomInv_getData [OF inv]) simp_all
    qed
    then show ?thesis
      by (simp add: Join joinConnection_def perform_def)
  next
    case (SyncWithServer c m f)
    have "invariant (perform \<lparr>srv = srv sys, pending = pending sys, trace = trace sys\<rparr>
            (getData (srv sys) (msg_room m) (conn_userid c) (ReceiveEditCb c m f)))"
    proof (rule invariant_perform [OF wf])
      show "list_all wellFormed
              (snd (getData (srv sys) (msg_room m) (conn_userid c) (ReceiveEditCb c m f)))"
        by (simp add: wellFormed_getData)
      show "roomInv (fst (getData (srv sys) (msg_room m) (conn_userid c) (ReceiveEditCb c m f)))
              (pending sys @ filter isAdapterCall
                 (snd (getData (srv sys) (msg_room m) (conn_userid c) (ReceiveEditCb c m f))))
              (trace sys @ snd (getData (srv sys) (msg_room m) (conn_userid c)
                 (ReceiveEditCb c m f))) r" for r
        by (rule roomInv_getData [OF inv]) simp_all
    qed
    then show ?thesis
      by (simp add: SyncWithServer receiveEdit_def perform_def)
  next
    case (SaveSnapshot room es u)
    have "invariant (perform \<lparr>srv = srv sys, pending = pending sys, trace = trace sys\<rparr>
            (saveSnapshot (srv sys) room es u))"
    proof (rule invariant_perform [OF wf])
      show "list_all wellFormed (snd (saveSnapshot (srv sys) room es u))"
        by (rule wellFormed_saveSnapshot)
      show "roomInv (fst (saveSnapshot (srv sys) room es u))
              (pending sys @ filter isAdapterCall (snd (saveSnapshot (srv sys) room es u)))
              (trace sys @ snd (saveSnapshot (srv sys) room es u)) r" for r
        by (rule roomInv_saveSnapshot [OF inv]) simp
    qed
    then show ?thesis
      by (simp add: SaveSnapshot perform_def)
  next
    case (GetDataDone i err dat)
    show ?thesis
    proof (cases "outstanding sys i")
      case None
      with assms GetDataDone show ?thesis by simp
    next
      case (Some a)
      then have i: "i < length (pending sys)" and a: "pending sys ! i = a"
        by (auto simp add: outstanding_def split: if_splits)
      show ?thesis
      proof (cases a)
        case (AdapterGetData room u cb)
        from list_all_nth [OF wf i] a AdapterGetData have cb: "cbRoom cb = room"
          by simp
        have "invariant (perform (complete i sys) (adapterGetDataCallback (srv sys) room cb err dat))"
          unfolding removed
        proof (rule invariant_perform [OF list_all_remove [OF wf]])
          show "list_all wellFormed (snd (adapterGetDataCallback (srv sys) room cb err dat))"
            by (rule wellFormed_adapterGetDataCallback [OF cb])
          show "roomInv (fst (adapterGetDataCallback (srv sys) room cb err dat))
                  ((take i (pending sys) @ drop (Suc i) (pending sys)) @ filter isAdapterCall
                     (snd (adapterGetDataCallback (srv sys) room cb err dat)))
                  (trace sys @ snd (adapterGetDataCallback (srv sys) room cb err dat)) r" for r
            using a AdapterGetData by (intro roomInv_loaded [OF inv i _ cb]) simp_all
        qed
        with GetDataDone Some AdapterGetData show ?thesis by simp
      qed (use assms GetDataDone Some in simp_all)
    qed
  next
    case (CheckDiffsDone i err res)
    show ?thesis
    proof (cases "outstanding sys i")
      case None
      with assms CheckDiffsDone show ?thesis by simp
    next
      case (Some a)
      then have i: "i < length (pending sys)" and a: "pending sys ! i = a"
        by (auto simp add: outstanding_def split: if_splits)
      show ?thesis
      proof (cases a)
        case (AdapterCheckDiffs m d c f)
        have "invariant (perform (complete i sys)
                 (checkDiffsCallback D (srv sys) c m f err res))"
          unfolding removed
        proof (rule invariant_perform [OF list_all_remove [OF wf]])
          show "list_all wellFormed (snd (checkDiffsCallback D (srv sys) c m f err res))"
            by (rule wellFormed_checkDiffsCallback)
          have "roomInv (srv sys) (take i (pending sys) @ drop (Suc i) (pending sys))
                  (trace sys) r" for r
            using a AdapterCheckDiffs by (intro roomInv_removed [OF inv i]) simp
          then show "roomInv (fst (checkDiffsCallback D (srv sys) c m f err res))
                  ((take i (pending sys) @ drop (Suc i) (pending sys)) @ filter isAdapterCall
                     (snd (checkDiffsCallback D (srv sys) c m f err res)))
                  (trace sys @ snd (checkDiffsCallback D (srv sys) c m f err res)) r" for r
            by (intro roomInv_checkDiffsCallback) simp_all
        qed
        with CheckDiffsDone Some AdapterCheckDiffs show ?thesis by simp
      qed (use assms CheckDiffsDone Some in simp_all)
    qed
  next
    case (StoreDataDone i)
    show ?thesis
    proof (cases "outstanding sys i")
      case None
      with assms StoreDataDone show ?thesis by simp
    next
      case (Some a)
      then have i: "i < length (pending sys)" and a: "pending sys ! i = a"
        by (auto simp add: outstanding_def split: if_splits)
      show ?thesis
      proof (cases a)
        case (AdapterStoreData room u d es k)
        from list_all_nth [OF wf i] a AdapterStoreData
        have k: "k = CheckQueueAndSaveAgain room es u"
          by simp
        have "invariant (perform (complete i sys) (checkQueueAndSaveAgain (srv sys) room es u))"
          unfolding removed
        proof (rule invariant_perform [OF list_all_remove [OF wf]])
          show "list_all wellFormed (snd (checkQueueAndSaveAgain (srv sys) room es u))"
            by (rule wellFormed_checkQueueAndSaveAgain)
          show "roomInv (fst (checkQueueAndSaveAgain (srv sys) room es u))
                  ((take i (pending sys) @ drop (Suc i) (pending sys)) @ filter isAdapterCall
                     (snd (checkQueueAndSaveAgain (srv sys) room es u)))
                  (trace sys @ snd (checkQueueAndSaveAgain (srv sys) room es u)) r" for r
            using a AdapterStoreData by (intro roomInv_stored [OF inv i]) simp_all
        qed
        with StoreDataDone Some AdapterStoreData k show ?thesis by simp
      qed (use assms StoreDataDone Some in simp_all)
    qed
  qed
qed

lemma invariant_initial: "invariant initial"
  by (simp add: invariant_def initial_def newServer_def roomInv_def truthy_def)

lemma invariant_run: "invariant sys \<Longrightarrow> invariant (run D evs sys)"
  by (induction evs arbitrary: sys) (simp_all add: run_Nil run_Cons invariant_step)

subsection \<open>What every handler keeps\<close>

lemma quiet_getDataCallback_cached:
  "loads r (snd (getDataCallback s cb None (Some rs))) = 0"
  by (cases cb) auto

lemma kept_getDataCallback_cached:
  "saveQueue (fst (getDataCallback s cb None (Some rs))) = saveQueue s \<and>
   (data s r \<noteq> None \<longrightarrow> data (fst (getDataCallback s cb None (Some rs))) r \<noteq> None)"
  by (cases cb) auto

lemma kept_getData:
  "saveQueue (fst (getData s room u cb)) = saveQueue s \<and>
   (data s r \<noteq> None \<longrightarrow> data (fst (getData s room u cb)) r \<noteq> None)"
proof (cases "data s room")
  case None
  then show ?thesis by (simp add: getData.simps)
next
  case (Some rs)
  with kept_getDataCallback_cached [of s cb rs r] show ?thesis
    by (simp add: getData_cached)
qed

lemma kept_saveSnapshot:
  "saveQueue s r = Some True \<Longrightarrow> saveQueue (fst (saveSnapshot s room es u)) r = Some True"
  using kept_getData [of "s\<lparr>saveRequests := (saveRequests s)(room \<mapsto> True)\<rparr>" room u
      "SaveSnapshotCb room es u" r]
  by (cases "truthy (saveRequests s room)")
     (simp_all add: saveSnapshot_busy saveSnapshot_idle)

lemma data_checkQueueAndSaveAgain:
  "data (fst (checkQueueAndSaveAgain s room es u)) = data s"
  by (simp add: checkQueueAndSaveAgain.simps data_saveSnapshot)

lemma kept_checkQueueAndSaveAgain:
  "saveQueue s r = Some True \<Longrightarrow> room \<noteq> r \<Longrightarrow>
   saveQueue (fst (checkQueueAndSaveAgain s room es u)) r = Some True"
  by (simp add: checkQueueAndSaveAgain.simps kept_saveSnapshot)

lemma kept_adapterGetDataCallback:
  "saveQueue (fst (adapterGetDataCallback s room cb err dat)) = saveQueue s \<and>
   data (fst (adapterGetDataCallback s room cb err dat)) room \<noteq> None \<and>
   (data s r \<noteq> None \<longrightarrow> data (fst (adapterGetDataCallback s room cb err dat)) r \<noteq> None)"
proof -
  let ?new = "\<lparr>registeredSockets = [], clientVersions = Map.empty, serverCopy = dat\<rparr>"
  let ?s2 = "s\<lparr>data := (data s)(room \<mapsto> ?new), requests := (requests s)(room \<mapsto> False)\<rparr>"
  have eq: "adapterGetDataCallback s room cb err dat = getDataCallback ?s2 cb None (Some ?new)"
    by (simp add: adapterGetDataCallback_def Let_def)
  from kept_getDataCallback_cached [of ?s2 cb ?new room]
    kept_getDataCallback_cached [of ?s2 cb ?new r]
  show ?thesis
    unfolding eq by auto
qed

lemma kept_checkDiffsCallback:
  "saveQueue s r = Some True \<Longrightarrow>
   saveQueue (fst (checkDiffsCallback D s c m f err res)) r = Some True"
  "data s r \<noteq> None \<Longrightarrow> data (fst (checkDiffsCallback D s c m f err res)) r \<noteq> None"
proof -
  obtain s' acts where res: "checkDiffsCallback D s c m f err res = (s', acts)"
    by (cases "checkDiffsCallback D s c m f err res") auto
  have "(saveQueue s r = Some True \<longrightarrow> saveQueue s' r = Some True) \<and>
        (data s r \<noteq> None \<longrightarrow> data s' r \<noteq> None)"
    using checkDiffsCallback_cases [OF res]
  proof (elim disjE exE conjE)
    fix doc doc2 doc3 s3 saved lg rest
    assume save: "saveSnapshot (s\<lparr>data := (data s)(msg_room m \<mapsto> doc2)\<rparr>) (msg_room m)
                 (msg_edits m) (conn_userid c) = (s3, saved)"
      and s': "s' = s3\<lparr>data := (data s3)(msg_room m \<mapsto> doc3)\<rparr>"
    from kept_saveSnapshot [of "s\<lparr>data := (data s)(msg_room m \<mapsto> doc2)\<rparr>" r "msg_room m"
        "msg_edits m" "conn_userid c"]
      data_saveSnapshot [of "s\<lparr>data := (data s)(msg_room m \<mapsto> doc2)\<rparr>" "msg_room m"
        "msg_edits m" "conn_userid c"] save s'
    show ?thesis by auto
  qed simp
  with res show "saveQueue s r = Some True \<Longrightarrow>
      saveQueue (fst (checkDiffsCallback D s c m f err res)) r = Some True"
    and "data s r \<noteq> None \<Longrightarrow> data (fst (checkDiffsCallback D s c m f err res)) r \<noteq> None"
    by simp_all
qed

text \<open>A room that is cached stays cached.\<close>

lemma cached_step:
  assumes "data (srv sys) r \<noteq> None"
  shows "data (srv (step D sys ev)) r \<noteq> None"
proof (cases ev)
  case (Join c room f)
  with assms kept_getData [of "srv sys" room "conn_userid c" "JoinCb c room f" r] show ?thesis
    by (simp add: perform_def joinConnection_def)
next
  case (SyncWithServer c m f)
  with assms kept_getData [of "srv sys" "msg_room m" "conn_userid c" "ReceiveEditCb c m f" r]
  show ?thesis
    by (simp add: perform_def receiveEdit_def)
next
  case (SaveSnapshot room es u)
  with assms show ?thesis
    by (simp add: perform_def data_saveSnapshot)
next
  case (GetDataDone i err dat)
  with assms kept_adapterGetDataCallback [of "srv sys" _ _ err dat r] show ?thesis
    by (simp add: perform_def split: option.splits action.splits)
next
  case (CheckDiffsDone i err res)
  with assms show ?thesis
    by (simp add: perform_def kept_checkDiffsCallback del: not_None_eq
          split: option.splits action.splits)
next
  case (StoreDataDone i)
  have "data (fst (storeDataCallback (srv sys) k)) = data (srv sys)" for k
    by (cases k) (simp add: data_checkQueueAndSaveAgain)
  with StoreDataDone assms show ?thesis
    by (simp add: perform_def split: option.splits action.splits)
qed

lemma cached_run:
  "data (srv sys) r \<noteq> None \<Longrightarrow> data (srv (run D evs sys)) r \<noteq> None"
proof (induction evs arbitrary: sys)
  case Nil
  then show ?case by (simp add: run_Nil)
next
  case (Cons ev evs)
  show ?case
    unfolding run_Cons by (rule Cons.IH [OF cached_step [OF Cons.prems]])
qed

subsection \<open>Claims about every run\<close>

lemma run_append: "run D (evs @ later) sys = run D later (run D evs sys)"
  by (simp add: run_def)

lemma invariant_reachable: "invariant (run D evs initial)"
  by (rule invariant_run [OF invariant_initial])

lemma roomInv_reachable:
  "roomInv (srv (run D evs initial)) (pending (run D evs initial)) (trace (run D evs initial)) r"
  using invariant_reachable [of D evs] by (simp add: invariant_def)

text \<open>C4: in every run of the server from its construction, adapter.getData is called at
  most once for a room, so at most one load of the room is ever outstanding. The
  completion of a load caches the room; a cached room stays cached whatever happens
  next, no load of it is outstanding, and getData for it runs the callback at once with
  the cached RoomState and hands nothing to adapter.getData.\<close>

theorem adapter_getData_at_most_once:
  "loads r (trace (run D evs initial)) \<le> 1
   \<and> loads r (pending (run D evs initial)) \<le> 1
   \<and> (\<forall>u0 cb0. outstanding (run D evs initial) i = Some (AdapterGetData r u0 cb0) \<longrightarrow>
         data (srv (step D (run D evs initial) (GetDataDone i err dat))) r \<noteq> None)
   \<and> (\<forall>rs. data (srv (run D evs initial)) r = Some rs \<longrightarrow>
         loads r (pending (run D evs initial)) = 0
         \<and> data (srv (run D (evs @ later) initial)) r \<noteq> None
         \<and> getData (srv (run D evs initial)) r u cb =
             getDataCallback (srv (run D evs initial)) cb None (Some rs)
         \<and> loads r' (snd (getData (srv (run D evs initial)) r u cb)) = 0)"
proof -
  let ?sys = "run D evs initial"
  note inv = roomInv_reachable [of D evs r]
  have once: "loads r (trace ?sys) \<le> 1" and flight: "loads r (pending ?sys) \<le> 1"
    using inv by (cases "data (srv ?sys) r"; simp add: roomInv_def)+
  have completes: "data (srv (step D ?sys (GetDataDone i err dat))) r \<noteq> None"
    if "outstanding ?sys i = Some (AdapterGetData r u0 cb0)" for u0 cb0
    using that kept_adapterGetDataCallback [of "srv ?sys" r cb0 err dat r]
    by (simp add: perform_def)
  have hit: "loads r (pending ?sys) = 0
      \<and> data (srv (run D (evs @ later) initial)) r \<noteq> None
      \<and> getData (srv ?sys) r u cb = getDataCallback (srv ?sys) cb None (Some rs)
      \<and> loads r' (snd (getData (srv ?sys) r u cb)) = 0"
    if "data (srv ?sys) r = Some rs" for rs
    using that inv cached_run [of ?sys r D later]
    by (simp add: roomInv_def run_append getData_cached quiet_getDataCallback_cached)
  from once flight completes hit show ?thesis by blast
qed

theorem adapter_getData_at_most_once_witness:
  "loads ''r'' (trace (run intLibs [Join alice ''r'' 1, GetDataDone 0 None 5, Join bob ''r'' 2]
      initial)) \<le> 1
   \<and> data (srv (step intLibs (run intLibs [Join alice ''r'' 1] initial) (GetDataDone 0 None 5)))
       ''r'' \<noteq> None
   \<and> data (srv (run intLibs ([Join alice ''r'' 1, GetDataDone 0 None 5] @ [Join bob ''r'' 2])
      initial)) ''r'' \<noteq> None
   \<and> loads ''r'' (snd (getData (srv (run intLibs [Join alice ''r'' 1, GetDataDone 0 None 5]
      initial)) ''r'' ''bob'' (JoinCb bob ''r'' 2))) = 0"
proof -
  have cached: "data (srv (run intLibs [Join alice ''r'' 1, GetDataDone 0 None 5] initial)) ''r'' =
      Some \<lparr>registeredSockets = [],
            clientVersions = [''a'' \<mapsto>
              \<lparr>cd_backup = \<lparr>backup_doc = 5, backup_serverVersion = 0\<rparr>,
               cd_shadow = \<lparr>shadow_doc = 5, shadow_serverVersion = 0, shadow_localVersion = 0\<rparr>,
               cd_edits = []\<rparr>],
            serverCopy = (5::int)\<rparr>"
    by (simp add: run_simps alice_def)
  have loading: "outstanding (run intLibs [Join alice ''r'' 1] (initial :: (int, int) system)) 0 =
      Some (AdapterGetData ''r'' ''alice'' (JoinCb alice ''r'' 1))"
    by (simp add: run_simps alice_def)
  have first: "loads ''r'' (trace (run intLibs
      [Join alice ''r'' 1, GetDataDone 0 None 5, Join bob ''r'' 2] initial)) \<le> 1"
    by (rule adapter_getData_at_most_once [where r = "''r''" and D = intLibs
      and evs = "[Join alice ''r'' 1, GetDataDone 0 None 5, Join bob ''r'' 2]", THEN conjunct1])
  have second: "data (srv (step intLibs (run intLibs [Join alice ''r'' 1] initial)
      (GetDataDone 0 None 5))) ''r'' \<noteq> None"
    by (rule adapter_getData_at_most_once [where r = "''r''" and D = intLibs
      and evs = "[Join alice ''r'' 1]" and i = 0 and err = None and dat = 5,
      THEN conjunct2, THEN conjunct2, THEN conjunct1, rule_format, OF loading])
  from adapter_getData_at_most_once [where r = "''r''" and D = intLibs
      and evs = "[Join alice ''r'' 1, GetDataDone 0 None 5]" and later = "[Join bob ''r'' 2]"
      and u = "''bob''" and cb = "JoinCb bob ''r'' 2" and r' = "''r''"] cached
  have rest: "data (srv (run intLibs ([Join alice ''r'' 1, GetDataDone 0 None 5] @ [Join bob ''r'' 2])
      initial)) ''r'' \<noteq> None
   \<and> loads ''r'' (snd (getData (srv (run intLibs [Join alice ''r'' 1, GetDataDone 0 None 5]
      initial)) ''r'' ''bob'' (JoinCb bob ''r'' 2))) = 0"
    by blast
  from first second rest show ?thesis by blast
qed

text \<open>The queue flag of a room stays set, and its outstanding save stays outstanding,
  until that save completes.\<close>

lemma queued_step:
  assumes wf: "list_all wellFormed (pending sys)"
    and q: "saveQueue (srv sys) r = Some True"
    and other: "\<forall>i. ev = StoreDataDone i \<longrightarrow>
                  \<not> (case outstanding sys i of Some a \<Rightarrow> isStoreDataFor r a | None \<Rightarrow> False)"
  shows "saveQueue (srv (step D sys ev)) r = Some True \<and>
         stores r (pending sys) \<le> stores r (pending (step D sys ev))"
proof (cases ev)
  case (Join c room f)
  with q kept_getData [of "srv sys" room "conn_userid c" "JoinCb c room f" r] show ?thesis
    by (simp add: perform_def joinConnection_def)
next
  case (SyncWithServer c m f)
  with q kept_getData [of "srv sys" "msg_room m" "conn_userid c" "ReceiveEditCb c m f" r]
  show ?thesis
    by (simp add: perform_def receiveEdit_def)
next
  case (SaveSnapshot room es u)
  with q show ?thesis
    by (simp add: perform_def kept_saveSnapshot)
next
  case (GetDataDone i err dat)
  show ?thesis
  proof (cases "outstanding sys i")
    case None
    with q GetDataDone show ?thesis by simp
  next
    case (Some a)
    then have i: "i < length (pending sys)" and a: "pending sys ! i = a"
      by (auto simp add: outstanding_def split: if_splits)
    show ?thesis
    proof (cases a)
      case (AdapterGetData room u cb)
      with q GetDataDone Some counts_remove(2) [OF i, of r] a
        kept_adapterGetDataCallback [of "srv sys" room cb err dat r]
      show ?thesis
        by (simp add: perform_def complete_def)
    qed (use q GetDataDone Some in simp_all)
  qed
next
  case (CheckDiffsDone i err res)
  show ?thesis
  proof (cases "outstanding sys i")
    case None
    with q CheckDiffsDone show ?thesis by simp
  next
    case (Some a)
    then have i: "i < length (pending sys)" and a: "pending sys ! i = a"
      by (auto simp add: outstanding_def split: if_splits)
    show ?thesis
    proof (cases a)
      case (AdapterCheckDiffs m d c f)
      with q CheckDiffsDone Some counts_remove(2) [OF i, of r] a
      show ?thesis
        by (simp add: perform_def complete_def kept_checkDiffsCallback)
    qed (use q CheckDiffsDone Some in simp_all)
  qed
next
  case (StoreDataDone i)
  show ?thesis
  proof (cases "outstanding sys i")
    case None
    with q StoreDataDone show ?thesis by simp
  next
    case (Some a)
    then have i: "i < length (pending sys)" and a: "pending sys ! i = a"
      by (auto simp add: outstanding_def split: if_splits)
    show ?thesis
    proof (cases a)
      case (AdapterStoreData room u d es k)
      from list_all_nth [OF wf i] a AdapterStoreData
      have k: "k = CheckQueueAndSaveAgain room es u"
        by simp
      from other StoreDataDone Some AdapterStoreData have "room \<noteq> r"
        by simp
      with q StoreDataDone Some AdapterStoreData k counts_remove(2) [OF i, of r] a
      show ?thesis
        by (simp add: perform_def complete_def kept_checkQueueAndSaveAgain)
    qed (use q StoreDataDone Some in simp_all)
  qed
qed

text \<open>What holds of an outstanding save in a run.\<close>

lemma outstanding_store:
  assumes "outstanding (run D evs initial) i = Some (AdapterStoreData r u d es k)"
  shows "k = CheckQueueAndSaveAgain r es u"
    and "data (srv (run D evs initial)) r \<noteq> None"
    and "stores r (pending (complete i (run D evs initial))) = 0"
proof -
  let ?sys = "run D evs initial"
  from assms have i: "i < length (pending ?sys)"
    and a: "pending ?sys ! i = AdapterStoreData r u d es k"
    by (auto simp add: outstanding_def split: if_splits)
  from invariant_reachable [of D evs] have "list_all wellFormed (pending ?sys)"
    by (simp add: invariant_def)
  from list_all_nth [OF this i] a show "k = CheckQueueAndSaveAgain r es u"
    by simp
  from roomInv_reachable [of D evs r] counts_remove(2) [OF i, of r] a
  show "data (srv ?sys) r \<noteq> None" and "stores r (pending (complete i ?sys)) = 0"
    by (cases "data (srv ?sys) r"; simp add: roomInv_def complete_def)+
qed

text \<open>C3: in every run of the server from its construction, at most one storeData is
  outstanding for a room. While one is outstanding, a call of saveSnapshot for the room,
  from outside or from the callback of receiveEdit, hands nothing to the adapter and
  only sets the room's queue flag; the flag then stays
  set, and the save outstanding, whatever else happens, until that save completes.
  When the save completes and the flag is set, exactly one storeData is issued, with the
  server copy the cache holds at that moment, and the flag is cleared; when the flag is
  not set, nothing is issued and the room's save flag is cleared.\<close>

theorem at_most_one_store_in_flight:
  "(let sys = run D evs initial in
      stores r (pending sys) \<le> 1
    \<and> (0 < stores r (pending sys) \<longrightarrow>
         step D sys (SaveSnapshot r es u) =
           sys\<lparr>srv := (srv sys)\<lparr>saveQueue := (saveQueue (srv sys))(r \<mapsto> True)\<rparr>\<rparr>
         \<and> (\<forall>t. saveRequests t r = saveRequests (srv sys) r \<longrightarrow>
               saveSnapshot t r es u = (t\<lparr>saveQueue := (saveQueue t)(r \<mapsto> True)\<rparr>, [])))
    \<and> (0 < stores r (pending sys) \<and> saveQueue (srv sys) r = Some True \<and>
        (\<forall>j. ev = StoreDataDone j \<longrightarrow>
           \<not> (case outstanding sys j of Some a \<Rightarrow> isStoreDataFor r a | None \<Rightarrow> False)) \<longrightarrow>
         saveQueue (srv (step D sys ev)) r = Some True \<and>
         stores r (pending (step D sys ev)) = 1)
    \<and> (\<forall>u0 d0 es0 k0. outstanding sys i = Some (AdapterStoreData r u0 d0 es0 k0) \<longrightarrow>
         (\<exists>rs. data (srv sys) r = Some rs \<and>
            stores r (pending (complete i sys)) = 0 \<and>
            step D sys (StoreDataDone i) =
              (if saveQueue (srv sys) r = Some True
               then \<lparr>srv = (srv sys)\<lparr>saveRequests := (saveRequests (srv sys))(r \<mapsto> True),
                                     saveQueue := (saveQueue (srv sys))(r \<mapsto> False)\<rparr>,
                     pending = pending (complete i sys) @
                       [AdapterStoreData r u0 (serverCopy rs) es0 k0],
                     trace = trace sys @ [AdapterStoreData r u0 (serverCopy rs) es0 k0]\<rparr>
               else \<lparr>srv = (srv sys)\<lparr>saveRequests := (saveRequests (srv sys))(r \<mapsto> False)\<rparr>,
                     pending = pending (complete i sys), trace = trace sys\<rparr>))))"
proof -
  let ?sys = "run D evs initial"
  note inv = roomInv_reachable [of D evs r]
  have wf: "list_all wellFormed (pending ?sys)"
    using invariant_reachable [of D evs] by (simp add: invariant_def)
  have one: "stores r (pending ?sys) \<le> 1"
    using inv by (cases "data (srv ?sys) r"; simp add: roomInv_def)
  have flagged: "truthy (saveRequests (srv ?sys) r)" if "0 < stores r (pending ?sys)"
    using that inv by (simp add: roomInv_def)
  have busy: "step D ?sys (SaveSnapshot r es u) =
      ?sys\<lparr>srv := (srv ?sys)\<lparr>saveQueue := (saveQueue (srv ?sys))(r \<mapsto> True)\<rparr>\<rparr>
      \<and> (\<forall>t. saveRequests t r = saveRequests (srv ?sys) r \<longrightarrow>
            saveSnapshot t r es u = (t\<lparr>saveQueue := (saveQueue t)(r \<mapsto> True)\<rparr>, []))"
    if "0 < stores r (pending ?sys)"
    using flagged [OF that] step_SaveSnapshot_busy [OF flagged [OF that], of D es u]
    by (simp add: saveSnapshot_busy del: step.simps)
  have stays: "saveQueue (srv (step D ?sys ev)) r = Some True \<and>
      stores r (pending (step D ?sys ev)) = 1"
    if "0 < stores r (pending ?sys)" "saveQueue (srv ?sys) r = Some True"
      "\<forall>j. ev = StoreDataDone j \<longrightarrow>
         \<not> (case outstanding ?sys j of Some a \<Rightarrow> isStoreDataFor r a | None \<Rightarrow> False)"
  proof -
    have "stores r (pending (step D ?sys ev)) \<le> 1"
      using roomInv_reachable [of D "evs @ [ev]" r]
      by (cases "data (srv (step D ?sys ev)) r"; simp add: roomInv_def run_snoc)
    with queued_step [OF wf that(2,3), of D] that(1) show ?thesis
      by simp
  qed
  have completes: "\<exists>rs. data (srv ?sys) r = Some rs \<and>
      stores r (pending (complete i ?sys)) = 0 \<and>
      step D ?sys (StoreDataDone i) =
        (if saveQueue (srv ?sys) r = Some True
         then \<lparr>srv = (srv ?sys)\<lparr>saveRequests := (saveRequests (srv ?sys))(r \<mapsto> True),
                               saveQueue := (saveQueue (srv ?sys))(r \<mapsto> False)\<rparr>,
               pending = pending (complete i ?sys) @
                 [AdapterStoreData r u0 (serverCopy rs) es0 k0],
               trace = trace ?sys @ [AdapterStoreData r u0 (serverCopy rs) es0 k0]\<rparr>
         else \<lparr>srv = (srv ?sys)\<lparr>saveRequests := (saveRequests (srv ?sys))(r \<mapsto> False)\<rparr>,
               pending = pending (complete i ?sys), trace = trace ?sys\<rparr>)"
    if out: "outstanding ?sys i = Some (AdapterStoreData r u0 d0 es0 k0)" for u0 d0 es0 k0
  proof -
    note facts = outstanding_store [OF out]
    from facts(2) obtain rs where rs: "data (srv ?sys) r = Some rs"
      by auto
    have "step D ?sys (StoreDataDone i) =
        perform (complete i ?sys) (checkQueueAndSaveAgain (srv ?sys) r es0 u0)"
      using out facts(1) by simp
    with rs facts(1,3) show ?thesis
      by (simp add: perform_def complete_def checkQueueAndSaveAgain_queued
            checkQueueAndSaveAgain_idle del: step.simps)
  qed
  from one busy stays completes show ?thesis
    unfolding Let_def by blast
qed


theorem at_most_one_store_in_flight_witness:
  "stores ''r'' (pending (run intLibs
      [Join alice ''r'' 1, GetDataDone 0 None 5, SaveSnapshot ''r'' [] ''alice'',
       SaveSnapshot ''r'' [] ''bob''] initial)) \<le> 1
   \<and> snd (saveSnapshot (srv (run intLibs
      [Join alice ''r'' 1, GetDataDone 0 None 5, SaveSnapshot ''r'' [] ''alice'',
       SaveSnapshot ''r'' [] ''bob''] initial)) ''r'' [] ''carol'') = []
   \<and> stores ''r'' (pending (step intLibs (run intLibs
      [Join alice ''r'' 1, GetDataDone 0 None 5, SaveSnapshot ''r'' [] ''alice'',
       SaveSnapshot ''r'' [] ''bob''] initial) (Join bob ''r'' 2))) = 1
   \<and> pending (step intLibs (run intLibs
      [Join alice ''r'' 1, GetDataDone 0 None 5, SaveSnapshot ''r'' [] ''alice'',
       SaveSnapshot ''r'' [] ''bob''] initial) (StoreDataDone 0)) =
     [AdapterStoreData ''r'' ''alice'' 5 [] (CheckQueueAndSaveAgain ''r'' [] ''alice'')]"
proof -
  let ?sys = "run intLibs
      [Join alice ''r'' 1, GetDataDone 0 None 5, SaveSnapshot ''r'' [] ''alice'',
       SaveSnapshot ''r'' [] ''bob''] initial"
  have out: "outstanding ?sys 0 =
      Some (AdapterStoreData ''r'' ''alice'' 5 [] (CheckQueueAndSaveAgain ''r'' [] ''alice''))"
    and flag: "saveQueue (srv ?sys) ''r'' = Some True"
    and rest: "pending (complete 0 ?sys) = []"
    and copy: "map_option serverCopy (data (srv ?sys) ''r'') = Some 5"
    and inflight: "0 < stores ''r'' (pending ?sys)"
    by (simp_all add: run_simps alice_def)
  note inst = at_most_one_store_in_flight [where D = intLibs and r = "''r''" and i = 0
      and evs = "[Join alice ''r'' 1, GetDataDone 0 None 5, SaveSnapshot ''r'' [] ''alice'',
       SaveSnapshot ''r'' [] ''bob'']" and es = "[]" and u = "''carol''"
      and ev = "Join bob ''r'' 2", unfolded Let_def]
  from inst have first: "stores ''r'' (pending ?sys) \<le> 1"
    by (rule conjunct1)
  from inst [THEN conjunct2, THEN conjunct1, rule_format, OF inflight, THEN conjunct2,
      rule_format, of "srv ?sys"]
  have second: "snd (saveSnapshot (srv ?sys) ''r'' [] ''carol'') = []"
    by simp
  have other: "0 < stores ''r'' (pending ?sys) \<and> saveQueue (srv ?sys) ''r'' = Some True \<and>
      (\<forall>j. Join bob ''r'' 2 = StoreDataDone j \<longrightarrow>
         \<not> (case outstanding ?sys j of Some a \<Rightarrow> isStoreDataFor ''r'' a | None \<Rightarrow> False))"
    using inflight flag by simp
  from inst [THEN conjunct2, THEN conjunct2, THEN conjunct1, rule_format, OF other]
  have third: "stores ''r'' (pending (step intLibs ?sys (Join bob ''r'' 2))) = 1"
    by (rule conjunct2)
  from inst [THEN conjunct2, THEN conjunct2, THEN conjunct2, rule_format, OF out]
  obtain rs where "data (srv ?sys) ''r'' = Some rs"
    and "step intLibs ?sys (StoreDataDone 0) =
       (if saveQueue (srv ?sys) ''r'' = Some True
        then \<lparr>srv = (srv ?sys)\<lparr>saveRequests := (saveRequests (srv ?sys))(''r'' \<mapsto> True),
                              saveQueue := (saveQueue (srv ?sys))(''r'' \<mapsto> False)\<rparr>,
              pending = pending (complete 0 ?sys) @
                [AdapterStoreData ''r'' ''alice'' (serverCopy rs) []
                   (CheckQueueAndSaveAgain ''r'' [] ''alice'')],
              trace = trace ?sys @ [AdapterStoreData ''r'' ''alice'' (serverCopy rs) []
                   (CheckQueueAndSaveAgain ''r'' [] ''alice'')]\<rparr>
        else \<lparr>srv = (srv ?sys)\<lparr>saveRequests := (saveRequests (srv ?sys))(''r'' \<mapsto> False)\<rparr>,
              pending = pending (complete 0 ?sys), trace = trace ?sys\<rparr>)"
    by blast
  with flag rest copy have fourth: "pending (step intLibs ?sys (StoreDataDone 0)) =
     [AdapterStoreData ''r'' ''alice'' 5 [] (CheckQueueAndSaveAgain ''r'' [] ''alice'')]"
    by (simp del: step.simps)
  from first second third fourth show ?thesis by blast
qed

subsection \<open>Where getData departs from its contract\<close>

text \<open>C5 (the code departs from the claim): a caller of getData that arrives while the load
  of the room is outstanding is not queued. Its callback is dropped: here the second
  join is never initialised, although the load completes, and nothing is left
  outstanding that could still run it. adapter.getData itself is called once.\<close>

theorem second_caller_is_dropped:
  "joinConnection
     (fst (joinConnection (newServer :: (int, int) server) alice ''r'' 1)) bob ''r'' 2 =
     (fst (joinConnection newServer alice ''r'' 1), [])
   \<and> trace (run intLibs [Join alice ''r'' 1, Join bob ''r'' 2, GetDataDone 0 None 5] initial) =
       [AdapterGetData ''r'' ''alice'' (JoinCb alice ''r'' 1), ConnectionJoin alice ''r'',
        InitializeClient 1 5]
   \<and> pending (run intLibs [Join alice ''r'' 1, Join bob ''r'' 2, GetDataDone 0 None 5] initial) = []
   \<and> map_option (\<lambda>rs. dom (clientVersions rs))
        (data (srv (run intLibs [Join alice ''r'' 1, Join bob ''r'' 2, GetDataDone 0 None 5]
           initial)) ''r'') = Some {''a''}"
  by (simp add: run_simps alice_def bob_def)

text \<open>C6 (the code departs from the claim): the callback getData hands to adapter.getData
  never reads its error argument. A load that fails clears the flag, but it also
  publishes a RoomState built from whatever came with the error, and hands it to the
  caller with a null error; later calls are served from the cache and the load is never
  tried again.\<close>

theorem failed_load_is_cached:
  "adapterGetDataCallback s room cb (Some e) dat = adapterGetDataCallback s room cb None dat
   \<and> data (fst (adapterGetDataCallback s room cb (Some e) dat)) room \<noteq> None
   \<and> trace (run intLibs
        [Join alice ''r'' 1, GetDataDone 0 (Some ''load failed'') 0, Join bob ''r'' 2] initial) =
       [AdapterGetData ''r'' ''alice'' (JoinCb alice ''r'' 1),
        ConnectionJoin alice ''r'', InitializeClient 1 0,
        ConnectionJoin bob ''r'', InitializeClient 2 0]
   \<and> map_option serverCopy (data (srv (run intLibs
        [Join alice ''r'' 1, GetDataDone 0 (Some ''load failed'') 0] initial)) ''r'') = Some 0
   \<and> requests (srv (run intLibs
        [Join alice ''r'' 1, GetDataDone 0 (Some ''load failed'') 0] initial)) ''r'' = Some False"
proof -
  have "adapterGetDataCallback s room cb (Some e) dat = adapterGetDataCallback s room cb None dat"
    by (simp add: adapterGetDataCallback_def)
  moreover have "data (fst (adapterGetDataCallback s room cb (Some e) dat)) room \<noteq> None"
    using kept_adapterGetDataCallback [of s room cb "Some e" dat room] by simp
  moreover have "trace (run intLibs
        [Join alice ''r'' 1, GetDataDone 0 (Some ''load failed'') 0, Join bob ''r'' 2] initial) =
       [AdapterGetData ''r'' ''alice'' (JoinCb alice ''r'' 1),
        ConnectionJoin alice ''r'', InitializeClient 1 0,
        ConnectionJoin bob ''r'', InitializeClient 2 0]"
    by (simp add: run_simps alice_def bob_def)
  moreover have "map_option serverCopy (data (srv (run intLibs
        [Join alice ''r'' 1, GetDataDone 0 (Some ''load failed'') 0] initial)) ''r'') = Some 0"
    and "requests (srv (run intLibs
        [Join alice ''r'' 1, GetDataDone 0 (Some ''load failed'') 0] initial)) ''r'' = Some False"
    by (simp_all add: run_simps alice_def)
  ultimately show ?thesis by blast
qed

end
